theory Spec2Isabelle
  imports Complex_Main "HOL-Library.Sublist" "HOL-Library.Word" "HOL-Library.Log_Nat"
begin

section \<open>The converter package of fk-converter\<close>

text \<open>
  A shallow embedding of \<^verbatim>\<open>converter/converter.go\<close>. Go strings are byte sequences and
  are modelled as \<open>string\<close> (a list of 8-bit characters). The request struct is a record,
  the package-level lookup tables are maps, a run-time panic and a returned \<^verbatim>\<open>error\<close> are
  values of sum types, and the calls of the progress callback are collected in a list in
  the order in which they happen.
\<close>

subsection \<open>Library functions of package strings\<close>

text \<open>
  \<^verbatim>\<open>strings.Split(s, sep)\<close> for a separator of one byte, which is what both call sites
  pass (\<^verbatim>\<open>"."\<close> and \<^verbatim>\<open>"x"\<close>): the pieces of \<open>s\<close> between the occurrences of the separator;
  the result is never empty, and it has one element exactly when the separator does not
  occur.
\<close>

fun Split :: "string \<Rightarrow> char \<Rightarrow> string list" where
  "Split [] sep = [[]]"
| "Split (c # cs) sep =
     (if c = sep then [] # Split cs sep
      else (case Split cs sep of
              [] \<Rightarrow> [[c]]
            | p # ps \<Rightarrow> (c # p) # ps))"

text \<open>\<^verbatim>\<open>strings.HasSuffix\<close>, \<^verbatim>\<open>strings.TrimSuffix\<close> and \<^verbatim>\<open>strings.Contains\<close>.\<close>

definition HasSuffix :: "string \<Rightarrow> string \<Rightarrow> bool" where
  "HasSuffix s suf = (length suf \<le> length s \<and> drop (length s - length suf) s = suf)"

definition TrimSuffix :: "string \<Rightarrow> string \<Rightarrow> string" where
  "TrimSuffix s suf = (if HasSuffix s suf then take (length s - length suf) s else s)"

fun Contains :: "string \<Rightarrow> string \<Rightarrow> bool" where
  "Contains [] sub = (sub = [])"
| "Contains (c # cs) sub = (prefix sub (c # cs) \<or> Contains cs sub)"

subsection \<open>The request and the lookup tables\<close>

type_synonym Quality = string

definition QualityLow :: Quality where "QualityLow = ''low''"
definition QualityMedium :: Quality where "QualityMedium = ''medium''"
definition QualityHigh :: Quality where "QualityHigh = ''high''"
definition QualityLossless :: Quality where "QualityLossless = ''lossless''"

definition crfMap :: "Quality \<rightharpoonup> int" where
  "crfMap = [QualityLow \<mapsto> 28, QualityMedium \<mapsto> 23, QualityHigh \<mapsto> 18, QualityLossless \<mapsto> 0]"

definition supportedFormats :: "string \<rightharpoonup> bool" where
  "supportedFormats =
     [''mp4'' \<mapsto> True, ''mkv'' \<mapsto> True, ''webm'' \<mapsto> True, ''avi'' \<mapsto> True, ''mov'' \<mapsto> True]"

definition codecMap :: "string \<rightharpoonup> string" where
  "codecMap = [''h264'' \<mapsto> ''libx264'', ''h265'' \<mapsto> ''libx265'', ''vp9'' \<mapsto> ''libvpx-vp9'']"

text \<open>
  Reading a Go map at a key it does not hold gives the zero value of the element type:
  \<^verbatim>\<open>false\<close>, \<^verbatim>\<open>0\<close> or the empty string.
\<close>

definition lookup_bool :: "(string \<rightharpoonup> bool) \<Rightarrow> string \<Rightarrow> bool" where
  "lookup_bool m k = (case m k of None \<Rightarrow> False | Some b \<Rightarrow> b)"

definition lookup_int :: "(string \<rightharpoonup> int) \<Rightarrow> string \<Rightarrow> int" where
  "lookup_int m k = (case m k of None \<Rightarrow> 0 | Some i \<Rightarrow> i)"

definition lookup_string :: "(string \<rightharpoonup> string) \<Rightarrow> string \<Rightarrow> string" where
  "lookup_string m k = (case m k of None \<Rightarrow> [] | Some v \<Rightarrow> v)"

record Options =
  Input :: string
  Output :: string
  Format :: string
  Quality :: Quality
  Resolution :: string
  Codec :: string

subsection \<open>ResolveOutput\<close>

definition getExtension :: "string \<Rightarrow> string" where
  "getExtension filename =
     (let parts = Split filename (CHR ''.'')
      in if length parts > 1 then parts ! (length parts - 1) else [])"

text \<open>
  The four steps of \<^verbatim>\<open>ResolveOutput\<close>, each on the request left by the step before, as
  the Go function mutates \<^verbatim>\<open>*opts\<close>.
\<close>

definition infer_format :: "Options \<Rightarrow> Options" where
  "infer_format opts =
     (if Output opts \<noteq> [] \<and> Format opts = [] then
        (let parts = Split (Output opts) (CHR ''.'')
         in if length parts > 1 then opts\<lparr>Format := parts ! (length parts - 1)\<rparr> else opts)
      else opts)"

definition default_format :: "Options \<Rightarrow> Options" where
  "default_format opts = (if Format opts = [] then opts\<lparr>Format := ''mp4''\<rparr> else opts)"

definition synth_output :: "Options \<Rightarrow> Options" where
  "synth_output opts =
     (if Output opts = [] then
        (let base = TrimSuffix (Input opts) (CHR ''.'' # getExtension (Input opts))
         in opts\<lparr>Output := base @ ''_converted.'' @ Format opts\<rparr>)
      else opts)"

definition default_quality :: "Options \<Rightarrow> Options" where
  "default_quality opts = (if Quality opts = [] then opts\<lparr>Quality := QualityMedium\<rparr> else opts)"

definition ResolveOutput :: "Options \<Rightarrow> Options" where
  "ResolveOutput opts = default_quality (synth_output (default_format (infer_format opts)))"

subsection \<open>The argument builder\<close>

text \<open>\<^verbatim>\<open>strconv.Itoa\<close>: the decimal digits of an integer, with a minus sign when negative.\<close>

definition digit_char :: "nat \<Rightarrow> char" where
  "digit_char d = ''0123456789'' ! d"

function nat_dec :: "nat \<Rightarrow> string" where
  "nat_dec n = (if n < 10 then [digit_char n] else nat_dec (n div 10) @ [digit_char (n mod 10)])"
  by pat_completeness auto
termination
  by (relation "measure (\<lambda>n. n)") auto

declare nat_dec.simps [simp del]

definition Itoa :: "int \<Rightarrow> string" where
  "Itoa i = (if i < 0 then CHR ''-'' # nat_dec (nat (- i)) else nat_dec (nat i))"

text \<open>
  Indexing a slice out of range panics in Go. \<^verbatim>\<open>resolveScale\<close> reads \<^verbatim>\<open>parts[1]\<close>
  without a length test, so the panic is part of its result type, and of the result type
  of its caller \<^verbatim>\<open>buildFFmpegArgs\<close>.
\<close>

datatype panic = IndexOutOfRange

definition scale_presets :: "string \<rightharpoonup> string" where
  "scale_presets =
     [''2160p'' \<mapsto> ''scale=-2:2160'', ''1440p'' \<mapsto> ''scale=-2:1440'',
      ''1080p'' \<mapsto> ''scale=-2:1080'', ''720p'' \<mapsto> ''scale=-2:720'',
      ''480p'' \<mapsto> ''scale=-2:480'', ''360p'' \<mapsto> ''scale=-2:360'']"

definition resolveScale :: "string \<Rightarrow> panic + string" where
  "resolveScale res =
     (case scale_presets res of
        Some scale \<Rightarrow> Inr scale
      | None \<Rightarrow>
          (let parts = Split res (CHR ''x'')
           in if length parts > 1
              then Inr (''scale='' @ parts ! 0 @ '':'' @ parts ! 1)
              else Inl IndexOutOfRange))"

text \<open>The codec library chosen by \<^verbatim>\<open>buildFFmpegArgs\<close> (its local variable \<^verbatim>\<open>codec\<close>).\<close>

definition select_codec :: "Options \<Rightarrow> string" where
  "select_codec opts =
     (if Codec opts \<noteq> [] then lookup_string codecMap (Codec opts)
      else if Format opts = ''webm'' then ''libvpx-vp9''
      else ''libx264'')"

definition buildFFmpegArgs :: "Options \<Rightarrow> panic + string list" where
  "buildFFmpegArgs opts =
     (let args = [''-i'', Input opts, ''-y'', ''-progress'', ''pipe:2'', ''-nostats''];
          codec = select_codec opts;
          args = args @ [''-c:v'', codec];
          crf = lookup_int crfMap (Quality opts);
          args = (if Contains codec ''vpx''
                  then args @ [''-crf'', Itoa crf, ''-b:v'', ''0'']
                  else args @ [''-crf'', Itoa crf]);
          args = args @ [''-c:a'', ''aac'', ''-b:a'', ''128k'']
      in if Resolution opts \<noteq> [] then
           (case resolveScale (Resolution opts) of
              Inl p \<Rightarrow> Inl p
            | Inr scale \<Rightarrow> Inr (args @ [''-vf'', scale] @ [Output opts]))
         else Inr (args @ [Output opts]))"

subsection \<open>Validation\<close>

text \<open>
  \<^verbatim>\<open>regexp.MatchString(`^\d+x\d+$`, res)\<close>: in Go's syntax \<^verbatim>\<open>\d\<close> is an ASCII digit and,
  without the multi-line flag, \<^verbatim>\<open>^\<close> and \<^verbatim>\<open>$\<close> are the two ends of the text. The matcher
  reads the longest run of digits, then the letter, then digits to the end.
\<close>

definition is_digit :: "char \<Rightarrow> bool" where
  "is_digit c = (c \<in> set ''0123456789'')"

definition match_dimensions :: "string \<Rightarrow> bool" where
  "match_dimensions res =
     (takeWhile is_digit res \<noteq> [] \<and>
      (case dropWhile is_digit res of
         [] \<Rightarrow> False
       | c # rest \<Rightarrow> c = CHR ''x'' \<and> rest \<noteq> [] \<and> list_all is_digit rest))"

definition resolution_presets :: "string \<rightharpoonup> bool" where
  "resolution_presets =
     [''2160p'' \<mapsto> True, ''1440p'' \<mapsto> True, ''1080p'' \<mapsto> True,
      ''720p'' \<mapsto> True, ''480p'' \<mapsto> True, ''360p'' \<mapsto> True]"

definition isValidResolution :: "string \<Rightarrow> bool" where
  "isValidResolution res = (if lookup_bool resolution_presets res then True else match_dimensions res)"

text \<open>
  The errors \<^verbatim>\<open>ValidateOptions\<close> returns, one constructor for each \<^verbatim>\<open>fmt.Errorf\<close> of the
  function, carrying the value the message prints; \<open>error_message\<close> is the text of the
  Go error.
\<close>

datatype validation_error =
    InputNotFound string
  | UnsupportedFormat string
  | UnsupportedCodec string
  | UnsupportedQuality string
  | InvalidResolution string

fun error_message :: "validation_error \<Rightarrow> string" where
  "error_message (InputNotFound s) = ''input file does not exist: '' @ s"
| "error_message (UnsupportedFormat s) =
     ''unsupported format: '' @ s @ '' (supported: mp4, mkv, webm, avi, mov)''"
| "error_message (UnsupportedCodec s) =
     ''unsupported codec: '' @ s @ '' (supported: h264, h265, vp9)''"
| "error_message (UnsupportedQuality s) =
     ''unsupported quality: '' @ s @ '' (supported: low, medium, high, lossless)''"
| "error_message (InvalidResolution s) =
     ''invalid resolution: '' @ s @ '' (examples: 1080p, 720p, 480p, or 1920x1080)''"

text \<open>
  The file system enters through \<^verbatim>\<open>os.Stat\<close> only: for each path, whether the call
  succeeds, fails with an error that \<^verbatim>\<open>os.IsNotExist\<close> recognises, or fails otherwise.
\<close>

datatype stat_result = StatOk | StatNotExist | StatOtherError

type_synonym filesystem = "string \<Rightarrow> stat_result"

definition ValidateOptions :: "filesystem \<Rightarrow> Options \<Rightarrow> validation_error option" where
  "ValidateOptions fs opts =
     (if fs (Input opts) = StatNotExist then Some (InputNotFound (Input opts))
      else if Format opts \<noteq> [] \<and> \<not> lookup_bool supportedFormats (Format opts)
        then Some (UnsupportedFormat (Format opts))
      else if Codec opts \<noteq> [] \<and> codecMap (Codec opts) = None
        then Some (UnsupportedCodec (Codec opts))
      else if Quality opts \<noteq> [] \<and> crfMap (Quality opts) = None
        then Some (UnsupportedQuality (Quality opts))
      else if Resolution opts \<noteq> [] \<and> \<not> isValidResolution (Resolution opts)
        then Some (InvalidResolution (Resolution opts))
      else None)"

subsection \<open>float64 arithmetic\<close>

text \<open>
  The percentage is computed in \<^verbatim>\<open>float64\<close>. A finite value is the rational number it
  denotes (the two zeros are not told apart), and the three values that a division by
  zero produces are constructors of their own. Every operation rounds its exact result to
  the nearest number with a 53-bit significand, ties to the even significand. The
  exponent is not bounded here: the magnitudes that \<^verbatim>\<open>parseProgress\<close> reaches from two
  64-bit integers lie between \<open>2 powi -63\<close> and \<open>2 powi 70\<close>, far from the overflow and
  underflow thresholds of the format.
\<close>

datatype float64 = Finite rat | PosInf | NegInf | NaN

text \<open>For \<open>0 < x\<close>, the exponent \<open>e\<close> with \<open>2 powi e \<le> x < 2 powi (e + 1)\<close>.\<close>

definition binade :: "rat \<Rightarrow> int" where
  "binade x =
     (let (a, b) = quotient_of x;
          d = bitlen a - bitlen b
      in if 2 powi d \<le> x then d else d - 1)"

definition round_half_even :: "rat \<Rightarrow> int" where
  "round_half_even m =
     (let f = \<lfloor>m\<rfloor>; d = m - of_int f
      in if d < 1 / 2 then f
         else if 1 / 2 < d then f + 1
         else if even f then f else f + 1)"

definition round53 :: "rat \<Rightarrow> rat" where
  "round53 x = (let s = binade x - 52 in of_int (round_half_even (x / 2 powi s)) * 2 powi s)"

definition rnd :: "rat \<Rightarrow> rat" where
  "rnd x = (if x = 0 then 0 else if 0 < x then round53 x else - round53 (- x))"

text \<open>
  The conversion \<^verbatim>\<open>float64(i)\<close> of an integer, the quotient of two finite values, the
  product of a value with a positive finite constant, and the comparison with a finite
  constant. A comparison with NaN is false.
\<close>

definition f64_of_int :: "int \<Rightarrow> rat" where
  "f64_of_int i = rnd (of_int i)"

definition f64_div :: "rat \<Rightarrow> rat \<Rightarrow> float64" where
  "f64_div a b =
     (if b = 0 then (if a = 0 then NaN else if 0 < a then PosInf else NegInf)
      else Finite (rnd (a / b)))"

fun f64_mul :: "float64 \<Rightarrow> rat \<Rightarrow> float64" where
  "f64_mul (Finite x) c = Finite (rnd (x * c))"
| "f64_mul PosInf c = PosInf"
| "f64_mul NegInf c = NegInf"
| "f64_mul NaN c = NaN"

fun f64_gt :: "float64 \<Rightarrow> rat \<Rightarrow> bool" where
  "f64_gt (Finite x) c = (c < x)"
| "f64_gt PosInf c = True"
| "f64_gt NegInf c = False"
| "f64_gt NaN c = False"

subsection \<open>The progress parser\<close>

text \<open>
  \<^verbatim>\<open>timeRegex.FindStringSubmatch(line)\<close> for the pattern \<^verbatim>\<open>out_time_us=(\d+)\<close>: the match
  that starts leftmost, with the longest run of ASCII digits after the literal text. The
  Go call returns the whole match and the group, a slice of length 2, or nil; the model
  returns the group.
\<close>

definition time_prefix :: string where
  "time_prefix = ''out_time_us=''"

fun FindStringSubmatch :: "string \<Rightarrow> string option" where
  "FindStringSubmatch [] = None"
| "FindStringSubmatch (c # cs) =
     (if prefix time_prefix (c # cs) \<and>
         takeWhile is_digit (drop (length time_prefix) (c # cs)) \<noteq> []
      then Some (takeWhile is_digit (drop (length time_prefix) (c # cs)))
      else FindStringSubmatch cs)"

text \<open>
  \<^verbatim>\<open>strconv.ParseInt(s, 10, 64)\<close>: an optional sign, then decimal digits only; a value that
  does not fit a signed 64-bit integer is a range error.
\<close>

datatype num_error = ErrSyntax | ErrRange

definition digit_value :: "char \<Rightarrow> int" where
  "digit_value c = of_char c - 48"

definition dec_value :: "string \<Rightarrow> int" where
  "dec_value ds = foldl (\<lambda>acc c. 10 * acc + digit_value c) 0 ds"

definition ParseInt :: "string \<Rightarrow> num_error + int" where
  "ParseInt s =
     (case s of
        [] \<Rightarrow> Inl ErrSyntax
      | c # cs \<Rightarrow>
          (let neg = (c = CHR ''-'');
               ds = (if c = CHR ''+'' \<or> c = CHR ''-'' then cs else s)
           in if ds = [] \<or> \<not> list_all is_digit ds then Inl ErrSyntax
              else if \<not> neg \<and> 2 ^ 63 \<le> dec_value ds then Inl ErrRange
              else if neg \<and> 2 ^ 63 < dec_value ds then Inl ErrRange
              else Inr (if neg then - dec_value ds else dec_value ds)))"

text \<open>
  \<^verbatim>\<open>time.Duration\<close> is a signed 64-bit count of nanoseconds, and \<^verbatim>\<open>time.Microsecond\<close> is
  1000. The product \<^verbatim>\<open>time.Duration(us) * time.Microsecond\<close> wraps around.
\<close>

type_synonym Duration = "64 word"

definition Microsecond :: Duration where
  "Microsecond = 1000"

text \<open>
  One round of the loop of \<^verbatim>\<open>parseProgress\<close> on a line the scanner delivered: the list
  of the values the callback is called with, empty or of one element.
\<close>

definition progress_line :: "Duration \<Rightarrow> string \<Rightarrow> float64 list" where
  "progress_line total_d line =
     (case FindStringSubmatch line of
        None \<Rightarrow> []
      | Some digits \<Rightarrow>
          (case ParseInt digits of
             Inl err \<Rightarrow> []
           | Inr us \<Rightarrow>
               (let current = (word_of_int us :: Duration) * Microsecond;
                    percent = f64_mul (f64_div (f64_of_int (sint current))
                                               (f64_of_int (sint total_d))) 100;
                    percent = (if f64_gt percent 100 then Finite 100 else percent)
                in [percent])))"

text \<open>
  \<^verbatim>\<open>bufio.NewScanner(r)\<close> with its default split function \<^verbatim>\<open>ScanLines\<close> and its default
  buffer. The scanner collects the bytes of the current line; a line feed ends the line,
  and the token is the line without the line feed and without one carriage return at its
  end. At the end of the input the bytes collected so far, if any, are the last token.
  The buffer grows to \<^verbatim>\<open>MaxScanTokenSize\<close> bytes and no further: when it is full and holds
  no line feed, \<^verbatim>\<open>Scan\<close> records \<^verbatim>\<open>ErrTooLong\<close> and returns false, now and ever after.
  \<open>scanner_lines pending r\<close> is the list of the tokens for which \<^verbatim>\<open>Scan\<close> returns true,
  \<open>pending\<close> being the bytes of the current line read so far and \<open>r\<close> the input that
  follows; \<open>scanner_unread pending r\<close> is the input that no read has taken when \<^verbatim>\<open>Scan\<close>
  returns false.
\<close>

definition MaxScanTokenSize :: nat where
  "MaxScanTokenSize = 64 * 1024"

definition dropCR :: "string \<Rightarrow> string" where
  "dropCR data = (if data \<noteq> [] \<and> last data = CHR 0x0D then butlast data else data)"

fun scanner_lines :: "string \<Rightarrow> string \<Rightarrow> string list" where
  "scanner_lines pending [] = (if pending = [] then [] else [dropCR pending])"
| "scanner_lines pending (c # cs) =
     (if c = CHR 0x0A then dropCR pending # scanner_lines [] cs
      else if MaxScanTokenSize \<le> length pending + 1 then []
      else scanner_lines (pending @ [c]) cs)"

fun scanner_unread :: "string \<Rightarrow> string \<Rightarrow> string" where
  "scanner_unread pending [] = []"
| "scanner_unread pending (c # cs) =
     (if c = CHR 0x0A then scanner_unread [] cs
      else if MaxScanTokenSize \<le> length pending + 1 then cs
      else scanner_unread (pending @ [c]) cs)"

text \<open>
  The loop \<^verbatim>\<open>for scanner.Scan()\<close> of \<^verbatim>\<open>parseProgress\<close> over the tokens of the scanner, and
  \<^verbatim>\<open>parseProgress\<close> itself on the bytes of the reader: the result is the sequence of the
  calls of \<^verbatim>\<open>onProgress\<close>. The function never reads \<^verbatim>\<open>scanner.Err()\<close>, so it returns in the
  same way at the end of the input and at a line that is too long.
\<close>

fun progress_loop :: "string list \<Rightarrow> Duration \<Rightarrow> float64 list" where
  "progress_loop [] total_d = []"
| "progress_loop (line # rest) total_d =
     progress_line total_d line @ progress_loop rest total_d"

definition parseProgress :: "string \<Rightarrow> Duration \<Rightarrow> float64 list" where
  "parseProgress r total_d = progress_loop (scanner_lines [] r) total_d"

subsection \<open>Convert\<close>






text \<open>
  The arguments that \<^verbatim>\<open>buildFFmpegArgs\<close> appends for the resolution, or the panic of
  \<^verbatim>\<open>resolveScale\<close>: the part of the function between the audio flags and the output path.
\<close>

definition scale_args :: "Options \<Rightarrow> panic + string list" where
  "scale_args opts =
     (if Resolution opts = [] then Inr []
      else (case resolveScale (Resolution opts) of
              Inl p \<Rightarrow> Inl p
            | Inr sc \<Rightarrow> Inr [''-vf'', sc]))"

subsection \<open>The resolver as the specification words it\<close>

text \<open>
  The specification describes the resolver by the substring of a path after its last
  dot and by the path with its extension removed. These two notions and the four steps
  are written here from the words of the specification, to be compared with
  \<open>ResolveOutput\<close>: the part after the last dot is what remains of the reversed string
  before its first dot, and removing the extension removes the last dot and what follows
  it, from a path that has a dot.
\<close>

definition after_last_dot :: "string \<Rightarrow> string" where
  "after_last_dot s = rev (takeWhile (\<lambda>c. c \<noteq> CHR ''.'') (rev s))"

definition without_extension :: "string \<Rightarrow> string" where
  "without_extension s =
     (if CHR ''.'' \<in> set s then rev (tl (dropWhile (\<lambda>c. c \<noteq> CHR ''.'') (rev s))) else s)"

definition resolve_spec :: "Options \<Rightarrow> Options" where
  "resolve_spec opts =
     (let inferred = (if Output opts \<noteq> [] \<and> Format opts = [] \<and> CHR ''.'' \<in> set (Output opts)
                      then after_last_dot (Output opts) else Format opts);
          fmt = (if inferred = [] then ''mp4'' else inferred);
          out = (if Output opts = [] then without_extension (Input opts) @ ''_converted.'' @ fmt
                 else Output opts);
          qual = (if Quality opts = [] then ''medium'' else Quality opts)
      in \<lparr>Input = Input opts, Output = out, Format = fmt, Quality = qual,
          Resolution = Resolution opts, Codec = Codec opts\<rparr>)"

section \<open>Properties of the resolver\<close>

text \<open>
  C9. Resolving a request whose output, format and quality are all set returns the
  request unchanged, whatever its resolution and codec are.
\<close>

theorem ResolveOutput_fully_specified:
  assumes "Output opts \<noteq> []" and "Format opts \<noteq> []" and "Quality opts \<noteq> []"
  shows "ResolveOutput opts = opts"
  using assms
  by (simp add: ResolveOutput_def infer_format_def default_format_def synth_output_def
      default_quality_def)

theorem ResolveOutput_fully_specified_witness:
  "ResolveOutput
     \<lparr>Input = ''a.mov'', Output = ''b.mkv'', Format = ''mkv'', Quality = ''high'',
      Resolution = ''big'', Codec = ''av1''\<rparr>
   = \<lparr>Input = ''a.mov'', Output = ''b.mkv'', Format = ''mkv'', Quality = ''high'',
      Resolution = ''big'', Codec = ''av1''\<rparr>"
  by (rule ResolveOutput_fully_specified) simp_all

section \<open>Properties of the argument builder\<close>

subsection \<open>The tables, the string functions and the shape of the argument list\<close>

lemma Itoa_table: "Itoa 28 = ''28''" "Itoa 23 = ''23''" "Itoa 18 = ''18''" "Itoa 0 = ''0''"
  by (simp_all add: Itoa_def nat_dec.simps digit_char_def)

lemma crfMap_table:
  "crfMap ''low'' = Some 28" "crfMap ''medium'' = Some 23" "crfMap ''high'' = Some 18"
  "crfMap ''lossless'' = Some 0"
  by (simp_all add: crfMap_def QualityLow_def QualityMedium_def QualityHigh_def QualityLossless_def)

lemma dom_crfMap: "dom crfMap = {''low'', ''medium'', ''high'', ''lossless''}"
  by (auto simp add: crfMap_def QualityLow_def QualityMedium_def QualityHigh_def QualityLossless_def)

lemma dom_codecMap: "dom codecMap = {''h264'', ''h265'', ''vp9''}"
  by (auto simp add: codecMap_def)

lemma codecMap_table:
  "codecMap ''h264'' = Some ''libx264''" "codecMap ''h265'' = Some ''libx265''"
  "codecMap ''vp9'' = Some ''libvpx-vp9''"
  by (simp_all add: codecMap_def)

lemma Split_not_Nil: "Split s sep \<noteq> []"
  by (induction s) (auto split: list.splits)

lemma length_Split: "length (Split s sep) = Suc (length (filter (\<lambda>c. c = sep) s))"
  by (induction s) (auto split: list.splits simp: Split_not_Nil)

lemma Split_single_iff: "Suc 0 < length (Split s sep) \<longleftrightarrow> sep \<in> set s"
  by (simp add: length_Split filter_empty_conv)

lemma buildFFmpegArgs_shape:
  "buildFFmpegArgs opts =
     (case scale_args opts of
        Inl p \<Rightarrow> Inl p
      | Inr sc \<Rightarrow>
          Inr ([''-i'', Input opts, ''-y'', ''-progress'', ''pipe:2'', ''-nostats'',
                ''-c:v'', select_codec opts,
                ''-crf'', Itoa (lookup_int crfMap (Quality opts))]
               @ (if Contains (select_codec opts) ''vpx'' then [''-b:v'', ''0''] else [])
               @ [''-c:a'', ''aac'', ''-b:a'', ''128k''] @ sc @ [Output opts]))"
  by (simp add: buildFFmpegArgs_def scale_args_def Let_def split: sum.splits)

lemma presets_same_dom: "scale_presets res = None \<longleftrightarrow> \<not> lookup_bool resolution_presets res"
  by (simp add: scale_presets_def resolution_presets_def lookup_bool_def)

lemma resolveScale_panics:
  "resolveScale res = Inl p \<longleftrightarrow> scale_presets res = None \<and> CHR ''x'' \<notin> set res"
  by (cases p) (simp add: resolveScale_def Let_def Split_single_iff split: option.splits)

lemma match_dimensions_has_x: "match_dimensions res \<Longrightarrow> CHR ''x'' \<in> set res"
proof -
  assume m: "match_dimensions res"
  then obtain rest where "dropWhile is_digit res = CHR ''x'' # rest"
    by (auto simp add: match_dimensions_def split: list.splits)
  then have "CHR ''x'' \<in> set (dropWhile is_digit res)" by simp
  then show ?thesis by (rule set_dropWhileD)
qed

lemma select_codec_cases:
  "select_codec opts \<in> {''libx264'', ''libx265'', ''libvpx-vp9'', []}"
  by (auto simp add: select_codec_def lookup_string_def codecMap_def)

lemma Contains_vpx: "Contains (select_codec opts) ''vpx'' \<longleftrightarrow> select_codec opts = ''libvpx-vp9''"
  using select_codec_cases [of opts] by auto


lemma scale_args_panics:
  "scale_args opts = Inl p \<Longrightarrow> Resolution opts \<noteq> [] \<and> \<not> isValidResolution (Resolution opts)"
  by (auto simp add: scale_args_def resolveScale_panics isValidResolution_def presets_same_dom
      dest: match_dimensions_has_x split: if_splits sum.splits)

lemma buildFFmpegArgs_panics:
  "buildFFmpegArgs opts = Inl p \<Longrightarrow> Resolution opts \<noteq> [] \<and> \<not> isValidResolution (Resolution opts)"
  by (auto simp add: buildFFmpegArgs_shape dest: scale_args_panics split: sum.splits)

text \<open>
  C1. The rate factors are low 28, medium 23, high 18 and lossless 0, and for a request
  with one of these four qualities the argument list that \<^verbatim>\<open>buildFFmpegArgs\<close> returns
  holds \<^verbatim>\<open>-crf\<close> with the decimal text of the rate factor right after it. The function
  returns no list only when it panics, which it does only on a resolution that is set
  and not valid.
\<close>

theorem buildFFmpegArgs_crf_table:
  assumes "(q, n, v) \<in> {(''low'', 28, ''28''), (''medium'', 23, ''23''), (''high'', 18, ''18''),
                        (''lossless'', 0, ''0'')}"
    and "Quality opts = q"
  shows "crfMap q = Some n \<and> Itoa n = v \<and>
         (case buildFFmpegArgs opts of
            Inr args \<Rightarrow> \<exists>pre post. args = pre @ [''-crf'', v] @ post
          | Inl p \<Rightarrow> Resolution opts \<noteq> [] \<and> \<not> isValidResolution (Resolution opts))"
proof -
  from assms(1) have tab: "crfMap q = Some n" "Itoa n = v"
    by (auto simp add: crfMap_table Itoa_table)
  show ?thesis
  proof (cases "buildFFmpegArgs opts")
    case (Inl p)
    with tab show ?thesis by (simp add: buildFFmpegArgs_panics)
  next
    case (Inr args)
    then obtain sc where args: "args =
        [''-i'', Input opts, ''-y'', ''-progress'', ''pipe:2'', ''-nostats'',
         ''-c:v'', select_codec opts] @ [''-crf'', v] @
        ((if Contains (select_codec opts) ''vpx'' then [''-b:v'', ''0''] else [])
          @ [''-c:a'', ''aac'', ''-b:a'', ''128k''] @ sc @ [Output opts])"
      using tab assms(2) by (auto simp add: buildFFmpegArgs_shape lookup_int_def split: sum.splits)
    then have "\<exists>pre post. args = pre @ [''-crf'', v] @ post" by blast
    with Inr tab show ?thesis by simp
  qed
qed

theorem buildFFmpegArgs_crf_table_witness:
  "\<exists>pre post.
     buildFFmpegArgs \<lparr>Input = ''a.mov'', Output = ''a_converted.mp4'', Format = ''mp4'',
                      Quality = ''low'', Resolution = ''720p'', Codec = []\<rparr>
     = Inr (pre @ [''-crf'', ''28''] @ post)"
  using buildFFmpegArgs_crf_table [of "''low''" 28 "''28''"
      "\<lparr>Input = ''a.mov'', Output = ''a_converted.mp4'', Format = ''mp4'',
        Quality = ''low'', Resolution = ''720p'', Codec = []\<rparr>"]
  by (auto simp add: isValidResolution_def lookup_bool_def resolution_presets_def split: sum.splits)

text \<open>
  C4. An explicitly set codec of the table selects its library, whatever the format; with
  no codec set the format \<^verbatim>\<open>webm\<close> selects the VP9 library and every other format the
  H.264 library. The argument list names the selected library after \<^verbatim>\<open>-c:v\<close>, then
  \<^verbatim>\<open>-crf\<close> and its value; \<^verbatim>\<open>-b:v 0\<close> follows exactly when the library name contains
  \<^verbatim>\<open>vpx\<close>; otherwise the audio flags follow at once, and the arguments for the resolution
  introduce no \<^verbatim>\<open>-b:v\<close>.
\<close>

theorem codec_library_selection:
  fixes opts :: Options
  defines "lib \<equiv> select_codec opts"
  shows "(Codec opts = ''h264'' \<longrightarrow> lib = ''libx264'') \<and>
         (Codec opts = ''h265'' \<longrightarrow> lib = ''libx265'') \<and>
         (Codec opts = ''vp9'' \<longrightarrow> lib = ''libvpx-vp9'') \<and>
         (Codec opts = [] \<and> Format opts = ''webm'' \<longrightarrow> lib = ''libvpx-vp9'') \<and>
         (Codec opts = [] \<and> Format opts \<noteq> ''webm'' \<longrightarrow> lib = ''libx264'') \<and>
         (Contains lib ''vpx'' \<longleftrightarrow> lib = ''libvpx-vp9'') \<and>
         (case buildFFmpegArgs opts of
            Inr args \<Rightarrow>
              \<exists>v scale.
                args = [''-i'', Input opts, ''-y'', ''-progress'', ''pipe:2'', ''-nostats'',
                        ''-c:v'', lib, ''-crf'', v]
                       @ (if Contains lib ''vpx'' then [''-b:v'', ''0''] else [])
                       @ [''-c:a'', ''aac'', ''-b:a'', ''128k''] @ scale @ [Output opts] \<and>
                ''-b:v'' \<notin> set scale
          | Inl p \<Rightarrow> Resolution opts \<noteq> [] \<and> \<not> isValidResolution (Resolution opts))"
proof -
  have sel: "(Codec opts = ''h264'' \<longrightarrow> lib = ''libx264'') \<and>
         (Codec opts = ''h265'' \<longrightarrow> lib = ''libx265'') \<and>
         (Codec opts = ''vp9'' \<longrightarrow> lib = ''libvpx-vp9'') \<and>
         (Codec opts = [] \<and> Format opts = ''webm'' \<longrightarrow> lib = ''libvpx-vp9'') \<and>
         (Codec opts = [] \<and> Format opts \<noteq> ''webm'' \<longrightarrow> lib = ''libx264'')"
    by (simp add: lib_def select_codec_def lookup_string_def codecMap_table)
  have vpx: "Contains lib ''vpx'' \<longleftrightarrow> lib = ''libvpx-vp9''"
    unfolding lib_def by (rule Contains_vpx)
  have scale: "''-b:v'' \<notin> set sc" if "scale_args opts = Inr sc" for sc
  proof -
    have "resolveScale r \<noteq> Inr ''-b:v''" for r
      by (auto simp add: resolveScale_def scale_presets_def Let_def split: option.splits if_splits)
    with that show ?thesis
      by (auto simp add: scale_args_def split: if_splits sum.splits)
  qed
  show ?thesis
  proof (cases "buildFFmpegArgs opts")
    case (Inl p)
    with sel vpx show ?thesis by (simp add: buildFFmpegArgs_panics)
  next
    case (Inr args)
    then obtain sc where sc: "scale_args opts = Inr sc" and
      args: "args = [''-i'', Input opts, ''-y'', ''-progress'', ''pipe:2'', ''-nostats'',
                ''-c:v'', lib, ''-crf'', Itoa (lookup_int crfMap (Quality opts))]
               @ (if Contains lib ''vpx'' then [''-b:v'', ''0''] else [])
               @ [''-c:a'', ''aac'', ''-b:a'', ''128k''] @ sc @ [Output opts]"
      by (auto simp add: buildFFmpegArgs_shape lib_def split: sum.splits)
    from args scale [OF sc] have "\<exists>v scale.
                args = [''-i'', Input opts, ''-y'', ''-progress'', ''pipe:2'', ''-nostats'',
                        ''-c:v'', lib, ''-crf'', v]
                       @ (if Contains lib ''vpx'' then [''-b:v'', ''0''] else [])
                       @ [''-c:a'', ''aac'', ''-b:a'', ''128k''] @ scale @ [Output opts] \<and>
                ''-b:v'' \<notin> set scale"
      by blast
    with Inr sel vpx show ?thesis by simp
  qed
qed

theorem codec_library_selection_witness:
  "buildFFmpegArgs \<lparr>Input = ''a.mov'', Output = ''a.webm'', Format = ''webm'',
                    Quality = ''high'', Resolution = [], Codec = []\<rparr>
   = Inr [''-i'', ''a.mov'', ''-y'', ''-progress'', ''pipe:2'', ''-nostats'',
          ''-c:v'', ''libvpx-vp9'', ''-crf'', ''18'', ''-b:v'', ''0'',
          ''-c:a'', ''aac'', ''-b:a'', ''128k'', ''a.webm'']"
  using codec_library_selection [of
      "\<lparr>Input = ''a.mov'', Output = ''a.webm'', Format = ''webm'',
        Quality = ''high'', Resolution = [], Codec = []\<rparr>"]
  by (simp add: buildFFmpegArgs_shape scale_args_def select_codec_def lookup_int_def
      crfMap_table Itoa_table)

subsection \<open>Values outside the tables\<close>

lemma ResolveOutput_fields:
  "Input (ResolveOutput opts) = Input opts"
  "Codec (ResolveOutput opts) = Codec opts"
  "Resolution (ResolveOutput opts) = Resolution opts"
  "Quality (ResolveOutput opts) = (if Quality opts = [] then ''medium'' else Quality opts)"
  by (simp_all add: ResolveOutput_def infer_format_def default_format_def synth_output_def
      default_quality_def QualityMedium_def Let_def)

lemma ValidateOptions_None_iff:
  "ValidateOptions fs opts = None \<longleftrightarrow>
     fs (Input opts) \<noteq> StatNotExist \<and>
     (Format opts = [] \<or> lookup_bool supportedFormats (Format opts)) \<and>
     (Codec opts = [] \<or> codecMap (Codec opts) \<noteq> None) \<and>
     (Quality opts = [] \<or> crfMap (Quality opts) \<noteq> None) \<and>
     (Resolution opts = [] \<or> isValidResolution (Resolution opts))"
  by (auto simp add: ValidateOptions_def)

text \<open>
  C7, as the specification states it, asks that a codec or a quality outside the tables
  never yields an argument list silently. The builder has no such test: for the codec
  \<^verbatim>\<open>av1\<close> and the quality \<^verbatim>\<open>ultra\<close> it returns a list with an empty library name and the
  rate factor 0.
\<close>

theorem unrecognized_values_build_silently:
  "codecMap ''av1'' = None \<and> crfMap ''ultra'' = None \<and>
   buildFFmpegArgs \<lparr>Input = ''a.mov'', Output = ''b.mp4'', Format = ''mp4'',
                    Quality = ''ultra'', Resolution = [], Codec = ''av1''\<rparr>
   = Inr [''-i'', ''a.mov'', ''-y'', ''-progress'', ''pipe:2'', ''-nostats'',
          ''-c:v'', [], ''-crf'', ''0'', ''-c:a'', ''aac'', ''-b:a'', ''128k'', ''b.mp4'']"
  by (simp add: buildFFmpegArgs_shape scale_args_def select_codec_def lookup_int_def
      lookup_string_def codecMap_def crfMap_def QualityLow_def QualityMedium_def
      QualityHigh_def QualityLossless_def Itoa_table)

text \<open>
  C7, amended. A set codec outside the table gives the empty library name, a quality
  outside the table gives the rate factor 0, and both are written into the argument list
  without a test. What keeps such values from the builder is the validation that the
  command runs on the resolved request before the conversion: when it succeeds, the
  codec is unset or in the table, the quality is in the table, and the builder returns a
  list.
\<close>

theorem unrecognized_values_only_validation:
  "(Codec opts \<noteq> [] \<and> codecMap (Codec opts) = None \<longrightarrow> select_codec opts = []) \<and>
   (crfMap (Quality opts) = None \<longrightarrow> Itoa (lookup_int crfMap (Quality opts)) = ''0'') \<and>
   (case buildFFmpegArgs opts of
      Inr args \<Rightarrow>
        \<exists>rest. args = [''-i'', Input opts, ''-y'', ''-progress'', ''pipe:2'', ''-nostats'',
                       ''-c:v'', select_codec opts,
                       ''-crf'', Itoa (lookup_int crfMap (Quality opts))] @ rest
    | Inl p \<Rightarrow> Resolution opts \<noteq> [] \<and> \<not> isValidResolution (Resolution opts)) \<and>
   (ValidateOptions fs (ResolveOutput opts) = None \<longrightarrow>
      (Codec (ResolveOutput opts) = [] \<or> Codec (ResolveOutput opts) \<in> {''h264'', ''h265'', ''vp9''}) \<and>
      Quality (ResolveOutput opts) \<in> {''low'', ''medium'', ''high'', ''lossless''} \<and>
      (\<exists>args. buildFFmpegArgs (ResolveOutput opts) = Inr args))"
proof -
  have a: "Codec opts \<noteq> [] \<and> codecMap (Codec opts) = None \<longrightarrow> select_codec opts = []"
    by (simp add: select_codec_def lookup_string_def)
  have b: "crfMap (Quality opts) = None \<longrightarrow> Itoa (lookup_int crfMap (Quality opts)) = ''0''"
    by (simp add: lookup_int_def Itoa_table)
  have c: "case buildFFmpegArgs opts of
      Inr args \<Rightarrow>
        \<exists>rest. args = [''-i'', Input opts, ''-y'', ''-progress'', ''pipe:2'', ''-nostats'',
                       ''-c:v'', select_codec opts,
                       ''-crf'', Itoa (lookup_int crfMap (Quality opts))] @ rest
    | Inl p \<Rightarrow> Resolution opts \<noteq> [] \<and> \<not> isValidResolution (Resolution opts)"
  proof (cases "buildFFmpegArgs opts")
    case (Inl p)
    then show ?thesis by (simp add: buildFFmpegArgs_panics)
  next
    case (Inr args)
    then show ?thesis
      by (auto simp add: buildFFmpegArgs_shape split: sum.splits)
  qed
  have d: "(Codec (ResolveOutput opts) = [] \<or> Codec (ResolveOutput opts) \<in> {''h264'', ''h265'', ''vp9''}) \<and>
      Quality (ResolveOutput opts) \<in> {''low'', ''medium'', ''high'', ''lossless''} \<and>
      (\<exists>args. buildFFmpegArgs (ResolveOutput opts) = Inr args)"
    if v: "ValidateOptions fs (ResolveOutput opts) = None"
  proof -
    let ?r = "ResolveOutput opts"
    from v have codec: "Codec ?r = [] \<or> Codec ?r \<in> dom codecMap"
      and quality: "Quality ?r = [] \<or> Quality ?r \<in> dom crfMap"
      and res: "Resolution ?r = [] \<or> isValidResolution (Resolution ?r)"
      by (auto simp add: ValidateOptions_None_iff)
    have "Quality ?r \<noteq> []" by (simp add: ResolveOutput_fields)
    with quality have q: "Quality ?r \<in> {''low'', ''medium'', ''high'', ''lossless''}"
      by (simp add: dom_crfMap)
    have "\<exists>args. buildFFmpegArgs ?r = Inr args"
    proof (cases "buildFFmpegArgs ?r")
      case (Inl p)
      from buildFFmpegArgs_panics [OF Inl] res show ?thesis by blast
    next
      case (Inr args)
      then show ?thesis by blast
    qed
    with codec q show ?thesis by (simp add: dom_codecMap)
  qed
  from a b c d show ?thesis by blast
qed

theorem unrecognized_values_only_validation_witness:
  "Quality (ResolveOutput \<lparr>Input = ''a.mov'', Output = [], Format = [], Quality = ''low'',
                            Resolution = [], Codec = []\<rparr>)
     \<in> {''low'', ''medium'', ''high'', ''lossless''}"
proof -
  let ?o = "\<lparr>Input = ''a.mov'', Output = [], Format = [], Quality = ''low'',
            Resolution = [], Codec = []\<rparr>"
  have "ValidateOptions (\<lambda>p. StatOk) (ResolveOutput ?o) = None"
    by (simp add: ValidateOptions_def ResolveOutput_def infer_format_def default_format_def
        synth_output_def default_quality_def Let_def lookup_bool_def supportedFormats_def
        crfMap_table)
  with unrecognized_values_only_validation [of ?o "\<lambda>p. StatOk"] show ?thesis by blast
qed

section \<open>The resolver against its specification\<close>

lemma Split_no_sep: "sep \<notin> set s \<Longrightarrow> Split s sep = [s]"
  by (induction s) auto

lemma Split_append: "Split (a @ sep # b) sep = Split a sep @ Split b sep"
  by (induction a) (auto split: list.splits simp: Split_not_Nil)

lemma Split_last_piece:
  assumes "sep \<notin> set b"
  shows "Split (a @ sep # b) sep ! (length (Split (a @ sep # b) sep) - Suc 0) = b"
  using assms by (simp add: Split_append Split_no_sep nth_append)

lemma after_last_dot_append:
  assumes "CHR ''.'' \<notin> set b"
  shows "after_last_dot (a @ CHR ''.'' # b) = b"
proof -
  from assms have tw: "takeWhile (\<lambda>c. c \<noteq> CHR ''.'') (rev b) = rev b"
    by (auto simp add: takeWhile_eq_all_conv)
  show ?thesis
    by (simp add: after_last_dot_def takeWhile_tail tw)
qed

lemma last_piece_after_dot:
  assumes "CHR ''.'' \<in> set s"
  shows "Split s (CHR ''.'') ! (length (Split s (CHR ''.'')) - Suc 0) = after_last_dot s"
proof -
  from split_list_last [OF assms] obtain a b where s: "s = a @ CHR ''.'' # b" and b: "CHR ''.'' \<notin> set b"
    by blast
  have "after_last_dot s = b"
    using b by (simp add: s after_last_dot_append)
  with Split_last_piece [OF b, of a] s show ?thesis by simp
qed

lemma getExtension_eq:
  "getExtension s = (if CHR ''.'' \<in> set s then after_last_dot s else [])"
  by (simp add: getExtension_def Let_def Split_single_iff last_piece_after_dot)

lemma TrimSuffix_extension: "TrimSuffix s (CHR ''.'' # getExtension s) = without_extension s"
proof (cases "CHR ''.'' \<in> set s")
  case True
  from split_list_last [OF True] obtain a b where s: "s = a @ CHR ''.'' # b" and b: "CHR ''.'' \<notin> set b"
    by blast
  have ext: "getExtension s = b"
    using b True by (simp add: getExtension_eq s after_last_dot_append)
  from b have "dropWhile (\<lambda>c. c \<noteq> CHR ''.'') (rev b) = []"
    by auto
  then have "dropWhile (\<lambda>c. c \<noteq> CHR ''.'') (rev b @ CHR ''.'' # rev a) = CHR ''.'' # rev a"
    by (simp add: dropWhile_append3)
  then have "without_extension s = a"
    using True by (simp add: without_extension_def s)
  moreover have "TrimSuffix s (CHR ''.'' # b) = a"
    by (simp add: TrimSuffix_def HasSuffix_def s)
  ultimately show ?thesis by (simp add: ext)
next
  case False
  then have "s = [] \<or> last s \<noteq> CHR ''.''" by (metis last_in_set)
  then have "\<not> HasSuffix s ''.''"
    by (cases s rule: rev_cases) (auto simp add: HasSuffix_def)
  with False show ?thesis
    by (simp add: TrimSuffix_def getExtension_eq without_extension_def)
qed

lemma ResolveOutput_eq_resolve_spec: "ResolveOutput opts = resolve_spec opts"
  by (cases opts)
    (simp add: ResolveOutput_def infer_format_def default_format_def synth_output_def
      default_quality_def resolve_spec_def Let_def Split_single_iff last_piece_after_dot
      TrimSuffix_extension QualityMedium_def)

text \<open>
  C2. \<open>ResolveOutput\<close> computes what the four steps of the specification describe, in
  their order: a format inferred from the part of a set output path after its last dot
  (when there is a dot and no format is set) comes before the default \<^verbatim>\<open>mp4\<close>; an unset
  output is the input without its extension, then \<^verbatim>\<open>_converted.\<close>, then the format that
  the first two steps left; an unset quality becomes \<^verbatim>\<open>medium\<close>. The output
  \<^verbatim>\<open>clip.mkv\<close> with no format gives the format \<^verbatim>\<open>mkv\<close>, and the input \<^verbatim>\<open>movie.mov\<close> with
  the format \<^verbatim>\<open>webm\<close> and no output gives the output \<^verbatim>\<open>movie_converted.webm\<close>.
\<close>

theorem ResolveOutput_steps:
  "ResolveOutput opts = resolve_spec opts \<and>
   (Output opts = ''clip.mkv'' \<and> Format opts = [] \<longrightarrow> Format (ResolveOutput opts) = ''mkv'') \<and>
   (Input opts = ''movie.mov'' \<and> Output opts = [] \<and> Format opts = ''webm'' \<longrightarrow>
      Output (ResolveOutput opts) = ''movie_converted.webm'')"
proof -
  have "after_last_dot ''clip.mkv'' = ''mkv''"
    by (simp add: after_last_dot_def)
  moreover have "without_extension ''movie.mov'' = ''movie''"
    by (simp add: without_extension_def)
  ultimately show ?thesis
    by (simp add: ResolveOutput_eq_resolve_spec resolve_spec_def Let_def)
qed

theorem ResolveOutput_steps_witness:
  "Output (ResolveOutput \<lparr>Input = ''movie.mov'', Output = [], Format = ''webm'', Quality = [],
                           Resolution = [], Codec = []\<rparr>) = ''movie_converted.webm''"
  by (rule ResolveOutput_steps [THEN conjunct2, THEN conjunct2, THEN mp]) simp

section \<open>Resolution and validation together\<close>

lemma ResolveOutput_nonempty:
  "Output (ResolveOutput opts) \<noteq> []" "Format (ResolveOutput opts) \<noteq> []"
  "Quality (ResolveOutput opts) \<noteq> []"
  by (simp_all add: ResolveOutput_def infer_format_def default_format_def synth_output_def
      default_quality_def QualityMedium_def Let_def)

lemma supportedFormats_iff:
  "lookup_bool supportedFormats f \<longleftrightarrow> f \<in> {''mp4'', ''mkv'', ''webm'', ''avi'', ''mov''}"
  by (simp add: lookup_bool_def supportedFormats_def)

lemma resolution_presets_iff:
  "lookup_bool resolution_presets r \<longleftrightarrow>
     r \<in> {''2160p'', ''1440p'', ''1080p'', ''720p'', ''480p'', ''360p''}"
  by (simp add: lookup_bool_def resolution_presets_def)

lemma not_digit_x: "\<not> is_digit (CHR ''x'')"
  by (simp add: is_digit_def)

lemma match_dimensions_iff:
  "match_dimensions res \<longleftrightarrow>
     (\<exists>w h. res = w @ ''x'' @ h \<and> w \<noteq> [] \<and> h \<noteq> [] \<and> list_all is_digit w \<and> list_all is_digit h)"
proof
  assume m: "match_dimensions res"
  let ?w = "takeWhile is_digit res"
  from m obtain h where d: "dropWhile is_digit res = CHR ''x'' # h" and h: "h \<noteq> []" "list_all is_digit h"
    by (auto simp add: match_dimensions_def split: list.splits)
  have "res = ?w @ dropWhile is_digit res" by simp
  with d have "res = ?w @ ''x'' @ h" by simp
  moreover from m have "?w \<noteq> []" by (simp add: match_dimensions_def)
  moreover have "list_all is_digit ?w" by (auto simp add: list_all_iff dest: set_takeWhileD)
  ultimately show "\<exists>w h. res = w @ ''x'' @ h \<and> w \<noteq> [] \<and> h \<noteq> [] \<and> list_all is_digit w \<and> list_all is_digit h"
    using h by blast
next
  assume "\<exists>w h. res = w @ ''x'' @ h \<and> w \<noteq> [] \<and> h \<noteq> [] \<and> list_all is_digit w \<and> list_all is_digit h"
  then obtain w h where res: "res = w @ CHR ''x'' # h" and w: "w \<noteq> []" "list_all is_digit w"
    and h: "h \<noteq> []" "list_all is_digit h"
    by auto
  from w(2) have tw: "takeWhile is_digit w = w" and dw: "dropWhile is_digit w = []"
    by (auto simp add: list_all_iff takeWhile_eq_all_conv)
  have "takeWhile is_digit res = w"
    by (simp add: res takeWhile_tail not_digit_x tw)
  moreover have "dropWhile is_digit res = CHR ''x'' # h"
    by (simp add: res dropWhile_append3 not_digit_x dw)
  ultimately show "match_dimensions res"
    using w h by (simp add: match_dimensions_def)
qed

text \<open>
  C6, as the specification states it, puts the format of every resolved request in the
  supported set. Resolution alone does not: the format inferred from the output path
  \<^verbatim>\<open>clip.flv\<close> is \<^verbatim>\<open>flv\<close>.
\<close>

theorem resolved_format_unsupported:
  "Format (ResolveOutput \<lparr>Input = ''a.mov'', Output = ''clip.flv'', Format = [],
                           Quality = [], Resolution = ''big'', Codec = ''av1''\<rparr>)
     \<notin> {''mp4'', ''mkv'', ''webm'', ''avi'', ''mov''}"
  by (simp add: ResolveOutput_def infer_format_def default_format_def synth_output_def
      default_quality_def Let_def)

text \<open>
  C6, amended. After resolution the output, the format and the quality are set. When
  the validation of the resolved request succeeds as well, the format is one of the five
  supported formats, the codec is unset or one of the three codecs, the quality is one of
  the four presets, and the resolution is unset, a preset, or digits, the letter x and
  digits.
\<close>

theorem resolved_then_validated:
  fixes opts :: Options and fs :: filesystem
  defines "r \<equiv> ResolveOutput opts"
  shows "Output r \<noteq> [] \<and> Format r \<noteq> [] \<and> Quality r \<noteq> [] \<and>
         (ValidateOptions fs r = None \<longrightarrow>
            Format r \<in> {''mp4'', ''mkv'', ''webm'', ''avi'', ''mov''} \<and>
            (Codec r = [] \<or> Codec r \<in> {''h264'', ''h265'', ''vp9''}) \<and>
            Quality r \<in> {''low'', ''medium'', ''high'', ''lossless''} \<and>
            (Resolution r = [] \<or>
             Resolution r \<in> {''2160p'', ''1440p'', ''1080p'', ''720p'', ''480p'', ''360p''} \<or>
             (\<exists>w h. Resolution r = w @ ''x'' @ h \<and> w \<noteq> [] \<and> h \<noteq> [] \<and>
                    list_all is_digit w \<and> list_all is_digit h)))"
proof -
  have ne: "Output r \<noteq> []" "Format r \<noteq> []" "Quality r \<noteq> []"
    by (simp_all add: r_def ResolveOutput_nonempty)
  have "Format r \<in> {''mp4'', ''mkv'', ''webm'', ''avi'', ''mov''} \<and>
        (Codec r = [] \<or> Codec r \<in> {''h264'', ''h265'', ''vp9''}) \<and>
        Quality r \<in> {''low'', ''medium'', ''high'', ''lossless''} \<and>
        (Resolution r = [] \<or>
         Resolution r \<in> {''2160p'', ''1440p'', ''1080p'', ''720p'', ''480p'', ''360p''} \<or>
         (\<exists>w h. Resolution r = w @ ''x'' @ h \<and> w \<noteq> [] \<and> h \<noteq> [] \<and>
                list_all is_digit w \<and> list_all is_digit h))"
    if v: "ValidateOptions fs r = None"
  proof -
    from v ne have f: "lookup_bool supportedFormats (Format r)"
      and c: "Codec r = [] \<or> Codec r \<in> dom codecMap"
      and q: "Quality r \<in> dom crfMap"
      and res: "Resolution r = [] \<or> isValidResolution (Resolution r)"
      by (auto simp add: ValidateOptions_None_iff)
    from res have "Resolution r = [] \<or>
         Resolution r \<in> {''2160p'', ''1440p'', ''1080p'', ''720p'', ''480p'', ''360p''} \<or>
         (\<exists>w h. Resolution r = w @ ''x'' @ h \<and> w \<noteq> [] \<and> h \<noteq> [] \<and>
                list_all is_digit w \<and> list_all is_digit h)"
      unfolding isValidResolution_def resolution_presets_iff match_dimensions_iff
      by (auto split: if_splits)
    with f c q show ?thesis
      by (simp add: supportedFormats_iff dom_codecMap dom_crfMap)
  qed
  with ne show ?thesis by blast
qed

theorem resolved_then_validated_witness:
  "Format (ResolveOutput \<lparr>Input = ''a.mov'', Output = ''clip.mkv'', Format = [],
                           Quality = [], Resolution = ''1280x720'', Codec = ''vp9''\<rparr>)
     \<in> {''mp4'', ''mkv'', ''webm'', ''avi'', ''mov''}"
  by (rule resolved_then_validated [of _ "\<lambda>p. StatOk", THEN conjunct2, THEN conjunct2,
        THEN conjunct2, THEN mp, THEN conjunct1]) code_simp

section \<open>Properties of the validation\<close>

lemma error_message_inj: "error_message e1 = error_message e2 \<Longrightarrow> e1 = e2"
  by (cases e1; cases e2) simp_all

text \<open>
  C8. \<open>ValidateOptions\<close> tests the input path, the format, the codec, the quality and
  the resolution in this order and returns the error of the first test that fails: a set
  format outside mp4, mkv, webm, avi, mov; a set codec outside h264, h265, vp9; a set
  quality outside the four presets; a set resolution that is neither a preset nor digits,
  the letter x and digits. So each of these is rejected, validation succeeds when the
  input exists and no field breaks its rule, and the five kinds of error have messages
  that tell them, and the offending value, apart.
\<close>

theorem ValidateOptions_rules:
  fixes opts :: Options and fs :: filesystem
  defines "bad_format \<equiv>
      Format opts \<noteq> [] \<and> Format opts \<notin> {''mp4'', ''mkv'', ''webm'', ''avi'', ''mov''}"
    and "bad_codec \<equiv> Codec opts \<noteq> [] \<and> Codec opts \<notin> {''h264'', ''h265'', ''vp9''}"
    and "bad_quality \<equiv>
      Quality opts \<noteq> [] \<and> Quality opts \<notin> {''low'', ''medium'', ''high'', ''lossless''}"
    and "bad_resolution \<equiv>
      Resolution opts \<noteq> [] \<and>
      Resolution opts \<notin> {''2160p'', ''1440p'', ''1080p'', ''720p'', ''480p'', ''360p''} \<and>
      \<not> (\<exists>w h. Resolution opts = w @ ''x'' @ h \<and> w \<noteq> [] \<and> h \<noteq> [] \<and>
                 list_all is_digit w \<and> list_all is_digit h)"
  shows "ValidateOptions fs opts =
           (if fs (Input opts) = StatNotExist then Some (InputNotFound (Input opts))
            else if bad_format then Some (UnsupportedFormat (Format opts))
            else if bad_codec then Some (UnsupportedCodec (Codec opts))
            else if bad_quality then Some (UnsupportedQuality (Quality opts))
            else if bad_resolution then Some (InvalidResolution (Resolution opts))
            else None) \<and>
         (bad_format \<or> bad_codec \<or> bad_quality \<or> bad_resolution
            \<longrightarrow> ValidateOptions fs opts \<noteq> None) \<and>
         (fs (Input opts) = StatOk \<and> \<not> bad_format \<and> \<not> bad_codec \<and> \<not> bad_quality \<and>
          \<not> bad_resolution \<longrightarrow> ValidateOptions fs opts = None) \<and>
         (\<forall>e e'. error_message e = error_message e' \<longrightarrow> e = e')"
proof -
  have f: "(Format opts \<noteq> [] \<and> \<not> lookup_bool supportedFormats (Format opts)) = bad_format"
    by (simp add: bad_format_def supportedFormats_iff)
  have c: "(Codec opts \<noteq> [] \<and> codecMap (Codec opts) = None) = bad_codec"
    using dom_codecMap by (auto simp add: bad_codec_def)
  have q: "(Quality opts \<noteq> [] \<and> crfMap (Quality opts) = None) = bad_quality"
    using dom_crfMap by (auto simp add: bad_quality_def)
  have r: "(Resolution opts \<noteq> [] \<and> \<not> isValidResolution (Resolution opts)) = bad_resolution"
    unfolding bad_resolution_def isValidResolution_def resolution_presets_iff match_dimensions_iff
    by auto
  have eq: "ValidateOptions fs opts =
           (if fs (Input opts) = StatNotExist then Some (InputNotFound (Input opts))
            else if bad_format then Some (UnsupportedFormat (Format opts))
            else if bad_codec then Some (UnsupportedCodec (Codec opts))
            else if bad_quality then Some (UnsupportedQuality (Quality opts))
            else if bad_resolution then Some (InvalidResolution (Resolution opts))
            else None)"
    unfolding ValidateOptions_def f c q r ..
  have rej: "bad_format \<or> bad_codec \<or> bad_quality \<or> bad_resolution
            \<longrightarrow> ValidateOptions fs opts \<noteq> None"
    unfolding eq by simp
  have acc: "fs (Input opts) = StatOk \<and> \<not> bad_format \<and> \<not> bad_codec \<and> \<not> bad_quality \<and>
          \<not> bad_resolution \<longrightarrow> ValidateOptions fs opts = None"
    unfolding eq by simp
  from eq rej acc error_message_inj show ?thesis by blast
qed

theorem ValidateOptions_rules_witness:
  "ValidateOptions (\<lambda>p. StatOk)
     \<lparr>Input = ''a.mov'', Output = ''b.mp4'', Format = ''flv'', Quality = ''low'',
      Resolution = ''720p'', Codec = ''h264''\<rparr> \<noteq> None \<and>
   ValidateOptions (\<lambda>p. StatOk)
     \<lparr>Input = ''a.mov'', Output = ''b.mp4'', Format = ''mp4'', Quality = ''low'',
      Resolution = ''720p'', Codec = ''h264''\<rparr> = None"
proof (rule conjI)
  show "ValidateOptions (\<lambda>p. StatOk)
     \<lparr>Input = ''a.mov'', Output = ''b.mp4'', Format = ''flv'', Quality = ''low'',
      Resolution = ''720p'', Codec = ''h264''\<rparr> \<noteq> None"
    by (rule ValidateOptions_rules [THEN conjunct2, THEN conjunct1, THEN mp]) simp
  show "ValidateOptions (\<lambda>p. StatOk)
     \<lparr>Input = ''a.mov'', Output = ''b.mp4'', Format = ''mp4'', Quality = ''low'',
      Resolution = ''720p'', Codec = ''h264''\<rparr> = None"
    by (rule ValidateOptions_rules [THEN conjunct2, THEN conjunct2, THEN conjunct1, THEN mp])
      simp
qed

section \<open>Rounding to float64\<close>

text \<open>
  The rounding \<open>rnd\<close> keeps the sign, stays within the binade of its argument and is
  monotone; these are the facts about float64 arithmetic that the progress parser needs.
\<close>

lemma pow2_pos: "0 < (2::rat) powi e"
  by (simp add: zero_less_power_int)

lemma pow2_of_bitlen:
  assumes "0 < a"
  shows "(2::rat) powi (bitlen a - 1) \<le> of_int a" and "of_int a < (2::rat) powi (bitlen a)"
proof -
  from bitlen_bounds [OF assms] have lo: "2 ^ nat (bitlen a - 1) \<le> a" and hi: "a < 2 ^ nat (bitlen a)"
    by auto
  from assms have b1: "1 \<le> bitlen a"
    using bitlen_eq_zero_iff [of a] bitlen_nonneg [of a] by linarith
  have "(2::rat) powi (bitlen a - 1) = 2 ^ nat (bitlen a - 1)"
    using b1 by (simp add: power_int_def)
  also have "\<dots> = of_int (2 ^ nat (bitlen a - 1))" by simp
  also have "\<dots> \<le> of_int a" using lo by (simp only: of_int_le_iff)
  finally show "(2::rat) powi (bitlen a - 1) \<le> of_int a" .
  have "(of_int a :: rat) < of_int (2 ^ nat (bitlen a))" using hi by (simp only: of_int_less_iff)
  also have "\<dots> = 2 ^ nat (bitlen a)" by simp
  also have "\<dots> = 2 powi (bitlen a)" using b1 by (simp add: power_int_def)
  finally show "of_int a < (2::rat) powi (bitlen a)" .
qed

lemma binade_bounds:
  assumes "0 < x"
  shows "2 powi (binade x) \<le> x" and "x < 2 powi (binade x + 1)"
proof -
  obtain a b where q: "quotient_of x = (a, b)" by (cases "quotient_of x")
  then have b: "0 < b" and x: "x = of_int a / of_int b"
    by (auto dest: quotient_of_denom_pos quotient_of_div)
  from assms b x have a: "0 < a"
    by (simp add: zero_less_divide_iff)
  define d where "d = bitlen a - bitlen b"
  have bin: "binade x = (if 2 powi d \<le> x then d else d - 1)"
    by (simp add: binade_def q d_def)
  note A = pow2_of_bitlen [OF a] and B = pow2_of_bitlen [OF b]
  have bpos: "(0::rat) < of_int b" using b by simp
  have "x < 2 powi (bitlen a) / 2 powi (bitlen b - 1)"
    unfolding x using A(2) B(1) bpos pow2_pos [of "bitlen b - 1"] pow2_pos [of "bitlen a"]
    using a by (intro frac_less) simp_all
  also have "\<dots> = 2 powi (bitlen a - (bitlen b - 1))"
    by (rule power_int_diff [symmetric]) simp
  also have "bitlen a - (bitlen b - 1) = d + 1"
    by (simp add: d_def)
  finally have up: "x < 2 powi (d + 1)" .
  have "2 powi (bitlen a - 1) / 2 powi (bitlen b) \<le> x"
    unfolding x using A(1) B(2) bpos pow2_pos [of "bitlen b"] pow2_pos [of "bitlen a - 1"]
    using a by (intro frac_le) simp_all
  moreover have "2 powi (bitlen a - 1) / 2 powi (bitlen b) = (2::rat) powi (bitlen a - 1 - bitlen b)"
    by (rule power_int_diff [symmetric]) simp
  moreover have "bitlen a - 1 - bitlen b = d - 1"
    by (simp add: d_def)
  ultimately have lo: "2 powi (d - 1) \<le> x" by simp
  show "2 powi (binade x) \<le> x"
    using lo by (simp add: bin)
  show "x < 2 powi (binade x + 1)"
    using up by (auto simp add: bin not_le)
qed


lemma pow2_split: "(2::rat) powi e = 2 ^ k * 2 powi (e - int k)"
proof -
  have "(2::rat) powi (int k + (e - int k)) = 2 powi (int k) * 2 powi (e - int k)"
    by (rule power_int_add) simp
  then show ?thesis by simp
qed

lemma pow2_mono: "m \<le> n \<Longrightarrow> (2::rat) powi m \<le> 2 powi n"
  by (rule power_int_increasing) simp_all

lemma pow2_less_imp:
  assumes "(2::rat) powi m < 2 powi n"
  shows "m < n"
proof (rule ccontr)
  assume "\<not> m < n"
  then have "(2::rat) powi n \<le> 2 powi m" by (intro pow2_mono) simp
  with assms show False by simp
qed

lemma pow2_52: "(2::rat) powi e = 2 ^ 52 * 2 powi (e - 52)"
  using pow2_split [of e 52] by simp

lemma pow2_53: "(2::rat) powi (e + 1) = 2 ^ 53 * 2 powi (e - 52)"
  using pow2_split [of "e + 1" 53] by simp

lemma round_half_even_cases: "round_half_even m = \<lfloor>m\<rfloor> \<or> round_half_even m = \<lfloor>m\<rfloor> + 1"
  by (simp add: round_half_even_def Let_def)

lemma round_half_even_of_int: "round_half_even (of_int k) = k"
  by (simp add: round_half_even_def Let_def)

lemma round_half_even_mono:
  assumes "m \<le> n"
  shows "round_half_even m \<le> round_half_even n"
proof (cases "\<lfloor>m\<rfloor> = \<lfloor>n\<rfloor>")
  case True
  from assms True have "m - of_int \<lfloor>m\<rfloor> \<le> n - of_int \<lfloor>n\<rfloor>" by simp
  with True show ?thesis
    by (auto simp add: round_half_even_def Let_def)
next
  case False
  with assms have "\<lfloor>m\<rfloor> + 1 \<le> \<lfloor>n\<rfloor>"
    using floor_mono [of m n] by linarith
  moreover have "round_half_even m \<le> \<lfloor>m\<rfloor> + 1"
    using round_half_even_cases [of m] by linarith
  moreover have "\<lfloor>n\<rfloor> \<le> round_half_even n"
    using round_half_even_cases [of n] by linarith
  ultimately show ?thesis by linarith
qed

text \<open>The scaled significand of a positive number and its rounding.\<close>

lemma significand_bounds:
  assumes "0 < x"
  shows "2 ^ 52 \<le> x / 2 powi (binade x - 52)" and "x / 2 powi (binade x - 52) < 2 ^ 53"
proof -
  let ?s = "binade x - 52"
  have p: "(0::rat) < 2 powi ?s" by (rule pow2_pos)
  have lo: "(2::rat) powi (binade x) = 2 ^ 52 * 2 powi ?s"
    by (rule pow2_52)
  have hi: "(2::rat) powi (binade x + 1) = 2 ^ 53 * 2 powi ?s"
    by (rule pow2_53)
  from binade_bounds(1) [OF assms] lo have "2 ^ 52 * 2 powi ?s \<le> x" by simp
  with p show "2 ^ 52 \<le> x / 2 powi ?s"
    by (simp add: pos_le_divide_eq)
  from binade_bounds(2) [OF assms] hi have "x < 2 ^ 53 * 2 powi ?s" by simp
  with p show "x / 2 powi ?s < 2 ^ 53"
    by (simp add: pos_divide_less_eq)
qed

lemma rounded_significand_bounds:
  assumes "0 < x"
  shows "2 ^ 52 \<le> round_half_even (x / 2 powi (binade x - 52))"
    and "round_half_even (x / 2 powi (binade x - 52)) \<le> 2 ^ 53"
proof -
  let ?m = "x / 2 powi (binade x - 52)"
  from significand_bounds(1) [OF assms] have "round_half_even (of_int (2 ^ 52)) \<le> round_half_even ?m"
    by (intro round_half_even_mono) simp
  then show "2 ^ 52 \<le> round_half_even ?m"
    by (simp only: round_half_even_of_int)
  from significand_bounds(2) [OF assms] have "round_half_even ?m \<le> round_half_even (of_int (2 ^ 53))"
    by (intro round_half_even_mono) simp
  then show "round_half_even ?m \<le> 2 ^ 53"
    by (simp only: round_half_even_of_int)
qed

lemma round53_bounds:
  assumes "0 < x"
  shows "2 powi (binade x) \<le> round53 x" and "round53 x \<le> 2 powi (binade x + 1)"
proof -
  let ?s = "binade x - 52"
  let ?r = "round_half_even (x / 2 powi ?s)"
  have p: "(0::rat) < 2 powi ?s" by (rule pow2_pos)
  have r53: "round53 x = of_int ?r * 2 powi ?s"
    by (simp add: round53_def Let_def)
  have lo: "(2::rat) powi (binade x) = 2 ^ 52 * 2 powi ?s"
    by (rule pow2_52)
  have hi: "(2::rat) powi (binade x + 1) = 2 ^ 53 * 2 powi ?s"
    by (rule pow2_53)
  from rounded_significand_bounds(1) [OF assms] have "(of_int (2 ^ 52) :: rat) \<le> of_int ?r"
    by (simp only: of_int_le_iff)
  then have "(2 ^ 52 :: rat) \<le> of_int ?r" by simp
  then have "(2 ^ 52 :: rat) * 2 powi ?s \<le> of_int ?r * 2 powi ?s"
    using p by (intro mult_right_mono) simp_all
  then show "2 powi (binade x) \<le> round53 x"
    by (simp only: lo r53)
  from rounded_significand_bounds(2) [OF assms] have "(of_int ?r :: rat) \<le> of_int (2 ^ 53)"
    by (simp only: of_int_le_iff)
  then have "(of_int ?r :: rat) \<le> 2 ^ 53" by simp
  then have "(of_int ?r :: rat) * 2 powi ?s \<le> 2 ^ 53 * 2 powi ?s"
    using p by (intro mult_right_mono) simp_all
  then show "round53 x \<le> 2 powi (binade x + 1)"
    by (simp only: hi r53)
qed

lemma round53_pos: "0 < x \<Longrightarrow> 0 < round53 x"
  using round53_bounds(1) [of x] pow2_pos [of "binade x"] by linarith

lemma binade_mono:
  assumes "0 < x" and "x \<le> y"
  shows "binade x \<le> binade y"
proof -
  from assms have y: "0 < y" by simp
  have "(2::rat) powi (binade x) \<le> x" by (rule binade_bounds(1) [OF assms(1)])
  also note assms(2)
  also have "y < 2 powi (binade y + 1)" by (rule binade_bounds(2) [OF y])
  finally have "(2::rat) powi (binade x) < 2 powi (binade y + 1)" .
  then have "binade x < binade y + 1"
    by (rule pow2_less_imp)
  then show ?thesis by simp
qed

lemma round53_mono:
  assumes "0 < x" and "x \<le> y"
  shows "round53 x \<le> round53 y"
proof (cases "binade x = binade y")
  case True
  let ?s = "binade y - 52"
  have p: "(0::rat) < 2 powi ?s" by (rule pow2_pos)
  from assms(2) p have "x / 2 powi ?s \<le> y / 2 powi ?s"
    by (simp add: divide_right_mono)
  then have "round_half_even (x / 2 powi ?s) \<le> round_half_even (y / 2 powi ?s)"
    by (rule round_half_even_mono)
  then have "(of_int (round_half_even (x / 2 powi ?s)) :: rat) \<le> of_int (round_half_even (y / 2 powi ?s))"
    by (simp only: of_int_le_iff)
  then have "(of_int (round_half_even (x / 2 powi ?s)) :: rat) * 2 powi ?s
      \<le> of_int (round_half_even (y / 2 powi ?s)) * 2 powi ?s"
    using p by (intro mult_right_mono) simp_all
  then show ?thesis
    by (simp add: round53_def Let_def True)
next
  case False
  from assms have y: "0 < y" by simp
  from False binade_mono [OF assms] have "binade x + 1 \<le> binade y" by simp
  then have "(2::rat) powi (binade x + 1) \<le> 2 powi (binade y)"
    by (rule pow2_mono)
  with round53_bounds(2) [OF assms(1)] round53_bounds(1) [OF y] show ?thesis
    by linarith
qed

lemma rnd_nonneg: "0 \<le> x \<Longrightarrow> 0 \<le> rnd x"
  using round53_pos [of x] by (auto simp add: rnd_def less_imp_le)

lemma rnd_pos: "0 < x \<Longrightarrow> 0 < rnd x"
  by (simp add: rnd_def round53_pos)

lemma rnd_mono_nonneg:
  assumes "0 \<le> x" and "x \<le> y"
  shows "rnd x \<le> rnd y"
proof (cases "x = 0")
  case True
  from assms have "0 \<le> rnd y" by (intro rnd_nonneg) simp
  with True show ?thesis by (simp add: rnd_def)
next
  case False
  with assms have "0 < x" "0 < y" by simp_all
  with assms show ?thesis by (simp add: rnd_def round53_mono)
qed

section \<open>Properties of the progress parser\<close>

lemma FindStringSubmatch_digits:
  "FindStringSubmatch line = Some ds \<Longrightarrow> ds \<noteq> [] \<and> list_all is_digit ds"
proof (induction line)
  case Nil
  then show ?case by simp
next
  case (Cons c cs)
  show ?case
  proof (cases "prefix time_prefix (c # cs) \<and>
         takeWhile is_digit (drop (length time_prefix) (c # cs)) \<noteq> []")
    case True
    with Cons.prems have ds: "ds = takeWhile is_digit (drop (length time_prefix) (c # cs))"
      by simp
    have "list_all is_digit (takeWhile is_digit (drop (length time_prefix) (c # cs)))"
      by (auto simp add: list_all_iff dest: set_takeWhileD)
    with True ds show ?thesis by simp
  next
    case False
    with Cons.prems have "FindStringSubmatch cs = Some ds"
      by (simp split: if_splits)
    then show ?thesis by (rule Cons.IH)
  qed
qed

lemma FindStringSubmatch_at_start:
  assumes "ds \<noteq> []" and "list_all is_digit ds" and "rest = [] \<or> \<not> is_digit (hd rest)"
  shows "FindStringSubmatch (time_prefix @ ds @ rest) = Some ds"
proof -
  have tw: "takeWhile is_digit (ds @ rest) = ds"
  proof (cases rest)
    case Nil
    with assms(2) show ?thesis by (simp add: list_all_iff)
  next
    case (Cons r rs)
    with assms(3) have "\<not> is_digit r" by simp
    with assms(2) Cons show ?thesis
      by (simp add: takeWhile_tail list_all_iff)
  qed
  have "time_prefix @ ds @ rest = CHR ''o'' # (''ut_time_us='' @ ds @ rest)"
    by (simp add: time_prefix_def)
  moreover have "prefix time_prefix (time_prefix @ ds @ rest)" by simp
  moreover have "drop (length time_prefix) (time_prefix @ ds @ rest) = ds @ rest" by simp
  ultimately show ?thesis
    using assms(1) tw
    by (metis FindStringSubmatch.simps(2))
qed

lemma digit_value_nonneg: "is_digit c \<Longrightarrow> 0 \<le> digit_value c"
  by (auto simp add: is_digit_def digit_value_def)

lemma foldl_dec_nonneg:
  "list_all is_digit ds \<Longrightarrow> 0 \<le> acc \<Longrightarrow>
     0 \<le> foldl (\<lambda>acc c. 10 * acc + digit_value c) acc ds"
proof (induction ds arbitrary: acc)
  case Nil
  then show ?case by simp
next
  case (Cons d ds)
  from Cons.prems have "0 \<le> 10 * acc + digit_value d"
    using digit_value_nonneg [of d] by simp
  with Cons.prems show ?case by (simp add: Cons.IH)
qed

lemma dec_value_nonneg: "list_all is_digit ds \<Longrightarrow> 0 \<le> dec_value ds"
  by (simp add: dec_value_def foldl_dec_nonneg)

lemma ParseInt_digits:
  assumes "ds \<noteq> []" and "list_all is_digit ds"
  shows "ParseInt ds = (if 2 ^ 63 \<le> dec_value ds then Inl ErrRange else Inr (dec_value ds))"
proof -
  from assms obtain c cs where ds: "ds = c # cs" and c: "is_digit c"
    by (cases ds) auto
  from c have "c \<noteq> CHR ''+''" "c \<noteq> CHR ''-''"
    by (auto simp add: is_digit_def)
  with assms show ?thesis
    by (simp add: ParseInt_def ds Let_def)
qed

lemma sint_Duration:
  assumes "- (2 ^ 63) \<le> k" and "k < 2 ^ 63"
  shows "sint (word_of_int k :: Duration) = k"
  using assms by (simp add: sint_sbintrunc' signed_take_bit_int_eq_self)

lemma current_no_overflow:
  assumes "0 \<le> us" and "us * 1000 < 2 ^ 63"
  shows "sint ((word_of_int us :: Duration) * Microsecond) = us * 1000"
proof -
  have "(word_of_int us :: Duration) * Microsecond = word_of_int (us * 1000)"
    by (simp add: Microsecond_def)
  moreover from assms have "- (2 ^ 63) \<le> us * 1000" by simp
  ultimately show ?thesis using assms(2) by (simp only: sint_Duration)
qed

text \<open>The scanner on streams of short lines and at a line that is too long.\<close>

lemma scanner_lines_line:
  assumes "CHR 0x0A \<notin> set l" and "length pending + length l < MaxScanTokenSize"
  shows "scanner_lines pending (l @ CHR 0x0A # rest) = dropCR (pending @ l) # scanner_lines [] rest"
  using assms
proof (induction l arbitrary: pending)
  case Nil
  then show ?case by simp
next
  case (Cons c l)
  from Cons.prems have c: "c \<noteq> CHR 0x0A" and l: "CHR 0x0A \<notin> set l"
    and len: "length (pending @ [c]) + length l < MaxScanTokenSize"
    by auto
  from len have "\<not> MaxScanTokenSize \<le> length pending + 1" by simp
  with c have "scanner_lines pending ((c # l) @ CHR 0x0A # rest)
      = scanner_lines (pending @ [c]) (l @ CHR 0x0A # rest)"
    by simp
  also have "\<dots> = dropCR ((pending @ [c]) @ l) # scanner_lines [] rest"
    using l len by (rule Cons.IH)
  finally show ?case by simp
qed

lemma scanner_lines_last:
  assumes "CHR 0x0A \<notin> set l" and "length pending + length l < MaxScanTokenSize"
  shows "scanner_lines pending l = (if pending @ l = [] then [] else [dropCR (pending @ l)])"
  using assms
proof (induction l arbitrary: pending)
  case Nil
  then show ?case by simp
next
  case (Cons c l)
  from Cons.prems have c: "c \<noteq> CHR 0x0A" and l: "CHR 0x0A \<notin> set l"
    and len: "length (pending @ [c]) + length l < MaxScanTokenSize"
    by auto
  from len have "\<not> MaxScanTokenSize \<le> length pending + 1" by simp
  with c have "scanner_lines pending (c # l) = scanner_lines (pending @ [c]) l"
    by simp
  also have "\<dots> = (if (pending @ [c]) @ l = [] then [] else [dropCR ((pending @ [c]) @ l)])"
    using l len by (rule Cons.IH)
  finally show ?case by simp
qed

lemma scanner_too_long:
  assumes "CHR 0x0A \<notin> set l" and "length pending < MaxScanTokenSize"
    and "MaxScanTokenSize \<le> length pending + length l"
  shows "scanner_lines pending (l @ rest) = []"
    and "scanner_unread pending (l @ rest) = drop (MaxScanTokenSize - length pending) l @ rest"
  using assms
proof (induction l arbitrary: pending)
  case Nil
  {
    case 1
    then show ?case by simp
  next
    case 2
    then show ?case by simp
  }
next
  case (Cons c l)
  {
    case 1
    then have c: "c \<noteq> CHR 0x0A" and l: "CHR 0x0A \<notin> set l" by auto
    show ?case
    proof (cases "MaxScanTokenSize \<le> length pending + 1")
      case True
      with c show ?thesis by simp
    next
      case False
      with c have "scanner_lines pending ((c # l) @ rest) = scanner_lines (pending @ [c]) (l @ rest)"
        by simp
      also have "\<dots> = []"
        using l False 1 by (intro Cons.IH(1)) simp_all
      finally show ?thesis .
    qed
  next
    case 2
    then have c: "c \<noteq> CHR 0x0A" and l: "CHR 0x0A \<notin> set l" by auto
    show ?case
    proof (cases "MaxScanTokenSize \<le> length pending + 1")
      case True
      with 2 have "MaxScanTokenSize - length pending = Suc 0" by simp
      with c True show ?thesis by simp
    next
      case False
      then have d: "MaxScanTokenSize - length pending = Suc (MaxScanTokenSize - length (pending @ [c]))"
        by simp
      from False c have "scanner_unread pending ((c # l) @ rest) = scanner_unread (pending @ [c]) (l @ rest)"
        by simp
      also have "\<dots> = drop (MaxScanTokenSize - length (pending @ [c])) l @ rest"
        using l False 2 by (intro Cons.IH(2)) simp_all
      finally show ?thesis by (simp only: d drop_Suc_Cons)
    qed
  }
qed

lemma scanner_lines_stream:
  assumes "\<forall>l \<in> set ls. CHR 0x0A \<notin> set l \<and> length l < MaxScanTokenSize"
  shows "scanner_lines [] (concat (map (\<lambda>l. l @ [CHR 0x0A]) ls) @ rest)
           = map dropCR ls @ scanner_lines [] rest"
  using assms
proof (induction ls)
  case Nil
  show ?case by simp
next
  case (Cons l ls)
  then have l: "CHR 0x0A \<notin> set l" "length [] + length l < MaxScanTokenSize" by simp_all
  have "scanner_lines [] (concat (map (\<lambda>l. l @ [CHR 0x0A]) (l # ls)) @ rest)
      = scanner_lines [] (l @ CHR 0x0A # (concat (map (\<lambda>l. l @ [CHR 0x0A]) ls) @ rest))"
    by simp
  also have "\<dots> = dropCR ([] @ l) # scanner_lines [] (concat (map (\<lambda>l. l @ [CHR 0x0A]) ls) @ rest)"
    using l by (rule scanner_lines_line)
  also have "scanner_lines [] (concat (map (\<lambda>l. l @ [CHR 0x0A]) ls) @ rest)
      = map dropCR ls @ scanner_lines [] rest"
    using Cons.prems by (intro Cons.IH) simp
  finally show ?case by simp
qed

lemma scanner_unread_stream:
  assumes "\<forall>l \<in> set ls. CHR 0x0A \<notin> set l \<and> length l < MaxScanTokenSize"
  shows "scanner_unread [] (concat (map (\<lambda>l. l @ [CHR 0x0A]) ls) @ rest) = scanner_unread [] rest"
  using assms
proof (induction ls)
  case Nil
  show ?case by simp
next
  case (Cons l ls)
  have step: "CHR 0x0A \<notin> set k \<Longrightarrow> length pending + length k < MaxScanTokenSize \<Longrightarrow>
      scanner_unread pending (k @ CHR 0x0A # r) = scanner_unread [] r" for k pending r
  proof (induction k arbitrary: pending)
    case Nil
    then show ?case by simp
  next
    case (Cons c k)
    then have "scanner_unread (pending @ [c]) (k @ CHR 0x0A # r) = scanner_unread [] r"
      by (intro Cons.IH) auto
    with Cons.prems show ?case by auto
  qed
  from Cons.prems have l: "CHR 0x0A \<notin> set l" "length [] + length l < MaxScanTokenSize" by simp_all
  have "scanner_unread [] (concat (map (\<lambda>l. l @ [CHR 0x0A]) (l # ls)) @ rest)
      = scanner_unread [] (l @ CHR 0x0A # (concat (map (\<lambda>l. l @ [CHR 0x0A]) ls) @ rest))"
    by simp
  also have "\<dots> = scanner_unread [] (concat (map (\<lambda>l. l @ [CHR 0x0A]) ls) @ rest)"
    using l by (rule step)
  also have "\<dots> = scanner_unread [] rest"
    using Cons.prems by (intro Cons.IH) simp
  finally show ?case .
qed

lemma progress_loop_append:
  "progress_loop (xs @ ys) total_d = progress_loop xs total_d @ progress_loop ys total_d"
  by (induction xs) simp_all

lemma progress_loop_concat:
  "progress_loop ls total_d = concat (map (progress_line total_d) ls)"
  by (induction ls) simp_all

lemma parseProgress_lines:
  assumes "\<forall>l \<in> set ls. CHR 0x0A \<notin> set l \<and> length l < MaxScanTokenSize"
  shows "parseProgress (concat (map (\<lambda>l. l @ [CHR 0x0A]) ls) @ rest) total_d
           = concat (map (\<lambda>l. progress_line total_d (dropCR l)) ls) @ parseProgress rest total_d"
  by (simp add: parseProgress_def scanner_lines_stream [OF assms] progress_loop_append
      progress_loop_concat comp_def)

lemma parseProgress_last:
  assumes "CHR 0x0A \<notin> set l" and "length l < MaxScanTokenSize"
  shows "parseProgress l total_d = (if l = [] then [] else progress_line total_d (dropCR l))"
  using scanner_lines_last [of l "[]"] assms by (simp add: parseProgress_def)

lemma parseProgress_too_long:
  assumes "CHR 0x0A \<notin> set l" and "MaxScanTokenSize \<le> length l"
  shows "parseProgress (l @ rest) total_d = []"
  using scanner_too_long(1) [of l "[]" rest] assms
  by (simp add: parseProgress_def MaxScanTokenSize_def)

lemma FindStringSubmatch_None_iff:
  "FindStringSubmatch line = None \<longleftrightarrow>
     \<not> (\<exists>pre d rest. line = pre @ ''out_time_us='' @ d # rest \<and> is_digit d)"
proof (induction line)
  case Nil
  show ?case by simp
next
  case (Cons c cs)
  let ?here = "prefix time_prefix (c # cs) \<and>
         takeWhile is_digit (drop (length time_prefix) (c # cs)) \<noteq> []"
  have here: "?here \<longleftrightarrow> (\<exists>d rest. c # cs = ''out_time_us='' @ d # rest \<and> is_digit d)"
  proof
    assume h: ?here
    then obtain tl where tl: "c # cs = time_prefix @ tl" by (auto simp add: prefix_def)
    with h have "takeWhile is_digit tl \<noteq> []" by simp
    then obtain d rest where "tl = d # rest" "is_digit d"
      by (cases tl) (auto split: if_splits)
    with tl show "\<exists>d rest. c # cs = ''out_time_us='' @ d # rest \<and> is_digit d"
      by (auto simp add: time_prefix_def)
  next
    assume "\<exists>d rest. c # cs = ''out_time_us='' @ d # rest \<and> is_digit d"
    then obtain d rest where eq: "c # cs = time_prefix @ d # rest" and d: "is_digit d"
      by (auto simp add: time_prefix_def)
    have "prefix time_prefix (c # cs)" unfolding eq by simp
    moreover have "drop (length time_prefix) (c # cs) = d # rest" unfolding eq by simp
    ultimately show ?here using d by simp
  qed
  have split: "(\<exists>pre d rest. c # cs = pre @ ''out_time_us='' @ d # rest \<and> is_digit d) \<longleftrightarrow>
        (\<exists>d rest. c # cs = ''out_time_us='' @ d # rest \<and> is_digit d) \<or>
        (\<exists>pre d rest. cs = pre @ ''out_time_us='' @ d # rest \<and> is_digit d)"
    (is "?L \<longleftrightarrow> ?A \<or> ?B")
  proof
    assume ?L
    then obtain pre d rest where eq: "c # cs = pre @ ''out_time_us='' @ d # rest" and d: "is_digit d"
      by blast
    show "?A \<or> ?B"
    proof (cases pre)
      case Nil
      with eq d have ?A by auto
      then show ?thesis ..
    next
      case (Cons p ps)
      with eq have "cs = ps @ ''out_time_us='' @ d # rest" by simp
      with d have ?B by blast
      then show ?thesis ..
    qed
  next
    assume "?A \<or> ?B"
    then show ?L
    proof
      assume ?A
      then obtain d rest where "c # cs = [] @ ''out_time_us='' @ d # rest" "is_digit d" by auto
      then show ?L by blast
    next
      assume ?B
      then obtain pre d rest where "cs = pre @ ''out_time_us='' @ d # rest" "is_digit d" by blast
      then have "c # cs = (c # pre) @ ''out_time_us='' @ d # rest" by simp
      with \<open>is_digit d\<close> show ?L by blast
    qed
  qed
  show ?case
  proof (cases ?here)
    case True
    then have "FindStringSubmatch (c # cs) \<noteq> None" by simp
    moreover from True here split have "\<exists>pre d rest. c # cs = pre @ ''out_time_us='' @ d # rest \<and> is_digit d"
      by blast
    ultimately show ?thesis by blast
  next
    case False
    then have "FindStringSubmatch (c # cs) = FindStringSubmatch cs" by auto
    with False here split Cons.IH show ?thesis by metis
  qed
qed

lemma rnd_1: "rnd 1 = 1"
  by code_simp

lemma rnd_100: "rnd 100 = 100"
  by code_simp

lemma percent_in_range:
  assumes c: "0 \<le> c" and t: "0 < t"
  defines "x \<equiv> rnd (rnd (rnd c / rnd t) * 100)"
  shows "0 \<le> x" and "t \<le> c \<Longrightarrow> 100 \<le> x"
proof -
  have rc: "0 \<le> rnd c" using c by (rule rnd_nonneg)
  have rt: "0 < rnd t" using t by (rule rnd_pos)
  from rc rt have q: "0 \<le> rnd c / rnd t" by simp
  then have "0 \<le> rnd (rnd c / rnd t)" by (rule rnd_nonneg)
  then have "0 \<le> rnd (rnd c / rnd t) * 100" by simp
  then show "0 \<le> x" unfolding x_def by (rule rnd_nonneg)
  assume "t \<le> c"
  with t have "rnd t \<le> rnd c" by (intro rnd_mono_nonneg) simp_all
  with rt have "1 \<le> rnd c / rnd t" by (simp add: pos_le_divide_eq)
  then have "rnd 1 \<le> rnd (rnd c / rnd t)" by (intro rnd_mono_nonneg) simp_all
  then have "100 \<le> rnd (rnd c / rnd t) * 100" by (simp add: rnd_1)
  then have "rnd 100 \<le> rnd (rnd (rnd c / rnd t) * 100)" by (intro rnd_mono_nonneg) simp_all
  then show "100 \<le> x" by (simp add: rnd_100 x_def)
qed

lemma progress_line_no_marker:
  "FindStringSubmatch line = None \<Longrightarrow> progress_line total_d line = []"
  by (simp add: progress_line_def)

lemma progress_line_out_of_range:
  assumes "FindStringSubmatch line = Some ds" and "2 ^ 63 \<le> dec_value ds"
  shows "ParseInt ds = Inl ErrRange" and "progress_line total_d line = []"
proof -
  from FindStringSubmatch_digits [OF assms(1)] assms(2)
  show p: "ParseInt ds = Inl ErrRange" by (simp add: ParseInt_digits)
  with assms(1) show "progress_line total_d line = []"
    by (simp add: progress_line_def)
qed

lemma progress_line_in_range:
  assumes "FindStringSubmatch line = Some ds" and "dec_value ds < 2 ^ 63"
  shows "length (progress_line total_d line) = 1"
proof -
  from FindStringSubmatch_digits [OF assms(1)] assms(2)
  have "ParseInt ds = Inr (dec_value ds)" by (simp add: ParseInt_digits)
  with assms(1) show ?thesis
    by (simp add: progress_line_def Let_def)
qed

lemma progress_line_value:
  assumes m: "FindStringSubmatch line = Some ds" and fit: "dec_value ds * 1000 < 2 ^ 63"
    and tot: "0 < sint total_d"
  defines "x \<equiv> rnd (rnd (rnd (of_int (dec_value ds * 1000)) / rnd (of_int (sint total_d))) * 100)"
  shows "progress_line total_d line = [Finite (min 100 x)]"
proof -
  note d = FindStringSubmatch_digits [OF m]
  from d have nn: "0 \<le> dec_value ds" by (simp add: dec_value_nonneg)
  with fit have "dec_value ds < 2 ^ 63" by linarith
  with d have p: "ParseInt ds = Inr (dec_value ds)" by (simp add: ParseInt_digits)
  have cur: "sint ((word_of_int (dec_value ds) :: Duration) * Microsecond) = dec_value ds * 1000"
    using nn fit by (rule current_no_overflow)
  from tot have "(0::rat) < of_int (sint total_d)" by (simp only: of_int_0_less_iff)
  then have "0 < rnd (of_int (sint total_d))" by (rule rnd_pos)
  then have nz: "rnd (of_int (sint total_d)) \<noteq> 0" by simp
  have "progress_line total_d line = [if 100 < x then Finite 100 else Finite x]"
    using nz by (simp add: progress_line_def m p Let_def cur f64_of_int_def f64_div_def x_def
        del: of_int_sint)
  then show ?thesis by (simp add: min_def not_less)
qed

lemma match_here_iff:
  "prefix time_prefix s \<and> takeWhile is_digit (drop (length time_prefix) s) \<noteq> [] \<longleftrightarrow>
     (\<exists>d rest. s = ''out_time_us='' @ d # rest \<and> is_digit d)"
proof
  assume h: "prefix time_prefix s \<and> takeWhile is_digit (drop (length time_prefix) s) \<noteq> []"
  then obtain tl where tl: "s = time_prefix @ tl" by (auto simp add: prefix_def)
  with h have "takeWhile is_digit tl \<noteq> []" by simp
  then obtain d rest where "tl = d # rest" "is_digit d"
    by (cases tl) (auto split: if_splits)
  with tl show "\<exists>d rest. s = ''out_time_us='' @ d # rest \<and> is_digit d"
    by (auto simp add: time_prefix_def)
next
  assume "\<exists>d rest. s = ''out_time_us='' @ d # rest \<and> is_digit d"
  then obtain d rest where eq: "s = time_prefix @ d # rest" and d: "is_digit d"
    by (auto simp add: time_prefix_def)
  have "prefix time_prefix s" unfolding eq by simp
  moreover have "drop (length time_prefix) s = d # rest" unfolding eq by simp
  ultimately show "prefix time_prefix s \<and> takeWhile is_digit (drop (length time_prefix) s) \<noteq> []"
    using d by simp
qed

lemma FindStringSubmatch_first_marker:
  "FindStringSubmatch line = Some ds \<longleftrightarrow>
     (\<exists>pre rest. line = pre @ ''out_time_us='' @ ds @ rest \<and> ds \<noteq> [] \<and> list_all is_digit ds \<and>
        (rest = [] \<or> \<not> is_digit (hd rest)) \<and>
        \<not> (\<exists>p d q. line = p @ ''out_time_us='' @ d # q \<and> is_digit d \<and> length p < length pre))"
  (is "?F line \<longleftrightarrow> ?M line")
proof (induction line)
  case Nil
  show ?case by simp
next
  case (Cons c cs)
  let ?here = "prefix time_prefix (c # cs) \<and>
         takeWhile is_digit (drop (length time_prefix) (c # cs)) \<noteq> []"
  show ?case
  proof (cases ?here)
    case True
    then obtain tl where tl: "c # cs = time_prefix @ tl" by (auto simp add: prefix_def)
    let ?ds = "takeWhile is_digit tl" and ?rest = "dropWhile is_digit tl"
    have dr: "drop (length time_prefix) (c # cs) = tl" by (simp add: tl)
    from True have "FindStringSubmatch (c # cs)
        = Some (takeWhile is_digit (drop (length time_prefix) (c # cs)))" by simp
    then have F: "FindStringSubmatch (c # cs) = Some ?ds" unfolding dr .
    from True have "takeWhile is_digit (drop (length time_prefix) (c # cs)) \<noteq> []" by simp
    then have ne: "?ds \<noteq> []" unfolding dr .
    have dig: "list_all is_digit ?ds" by (auto simp add: list_all_iff dest: set_takeWhileD)
    have rest: "?rest = [] \<or> \<not> is_digit (hd ?rest)"
      using hd_dropWhile [of is_digit tl] by blast
    have split: "c # cs = [] @ ''out_time_us='' @ ?ds @ ?rest"
      using tl by (simp add: time_prefix_def)
    show ?thesis
    proof
      assume "?F (c # cs)"
      with F have ds: "ds = ?ds" by simp
      show "?M (c # cs)"
        unfolding ds using split ne dig rest by (intro exI [of _ "[]"] exI [of _ ?rest]) simp
    next
      assume "?M (c # cs)"
      then obtain pre rest where eq: "c # cs = pre @ ''out_time_us='' @ ds @ rest"
        and ne': "ds \<noteq> []" and dig': "list_all is_digit ds"
        and rest': "rest = [] \<or> \<not> is_digit (hd rest)"
        and first: "\<not> (\<exists>p d q. c # cs = p @ ''out_time_us='' @ d # q \<and> is_digit d \<and> length p < length pre)"
        by blast
      from True obtain d q where "c # cs = [] @ ''out_time_us='' @ d # q" "is_digit d"
        unfolding match_here_iff by auto
      with first have "\<not> 0 < length pre" by (metis list.size(3))
      then have "pre = []" by simp
      with eq have "c # cs = time_prefix @ ds @ rest" by (simp add: time_prefix_def)
      then have "FindStringSubmatch (c # cs) = FindStringSubmatch (time_prefix @ ds @ rest)"
        by simp
      also have "\<dots> = Some ds"
        using ne' dig' rest' by (rule FindStringSubmatch_at_start)
      finally show "?F (c # cs)" .
    qed
  next
    case False
    then have F: "FindStringSubmatch (c # cs) = FindStringSubmatch cs" by auto
    from False have nohere: "\<not> (\<exists>d rest. c # cs = ''out_time_us='' @ d # rest \<and> is_digit d)"
      unfolding match_here_iff .
    show ?thesis
    proof
      assume "?F (c # cs)"
      with F Cons.IH have "?M cs" by simp
      then obtain pre rest where eq: "cs = pre @ ''out_time_us='' @ ds @ rest"
        and ne': "ds \<noteq> []" and dig': "list_all is_digit ds"
        and rest': "rest = [] \<or> \<not> is_digit (hd rest)"
        and first: "\<not> (\<exists>p d q. cs = p @ ''out_time_us='' @ d # q \<and> is_digit d \<and> length p < length pre)"
        by blast
      have "\<not> (\<exists>p d q. c # cs = p @ ''out_time_us='' @ d # q \<and> is_digit d \<and> length p < length (c # pre))"
      proof
        assume "\<exists>p d q. c # cs = p @ ''out_time_us='' @ d # q \<and> is_digit d \<and> length p < length (c # pre)"
        then obtain p d q where e: "c # cs = p @ ''out_time_us='' @ d # q" and d: "is_digit d"
          and len: "length p < length (c # pre)" by blast
        show False
        proof (cases p)
          case Nil
          with e d nohere show False by auto
        next
          case (Cons p0 ps)
          with e have "cs = ps @ ''out_time_us='' @ d # q" by simp
          moreover from len Cons have "length ps < length pre" by simp
          ultimately show False using first d by blast
        qed
      qed
      moreover from eq have "c # cs = (c # pre) @ ''out_time_us='' @ ds @ rest" by simp
      ultimately show "?M (c # cs)" using ne' dig' rest' by blast
    next
      assume "?M (c # cs)"
      then obtain pre rest where eq: "c # cs = pre @ ''out_time_us='' @ ds @ rest"
        and ne': "ds \<noteq> []" and dig': "list_all is_digit ds"
        and rest': "rest = [] \<or> \<not> is_digit (hd rest)"
        and first: "\<not> (\<exists>p d q. c # cs = p @ ''out_time_us='' @ d # q \<and> is_digit d \<and> length p < length pre)"
        by blast
      from ne' dig' obtain d0 ds0 where ds0: "ds = d0 # ds0" "is_digit d0" by (cases ds) auto
      have "pre \<noteq> []"
      proof
        assume "pre = []"
        with eq ds0 have "c # cs = ''out_time_us='' @ d0 # (ds0 @ rest)" by simp
        with ds0(2) nohere show False by blast
      qed
      then obtain pre' where pre: "pre = c # pre'" using eq by (cases pre) auto
      with eq have eq': "cs = pre' @ ''out_time_us='' @ ds @ rest" by simp
      have "\<not> (\<exists>p d q. cs = p @ ''out_time_us='' @ d # q \<and> is_digit d \<and> length p < length pre')"
      proof
        assume "\<exists>p d q. cs = p @ ''out_time_us='' @ d # q \<and> is_digit d \<and> length p < length pre'"
        then obtain p d q where "cs = p @ ''out_time_us='' @ d # q" "is_digit d" "length p < length pre'"
          by blast
        then have "c # cs = (c # p) @ ''out_time_us='' @ d # q \<and> is_digit d \<and> length (c # p) < length pre"
          by (simp add: pre)
        with first show False by blast
      qed
      with eq' ne' dig' rest' have "?M cs" by blast
      with Cons.IH F show "?F (c # cs)" by simp
    qed
  qed
qed

lemma foldl_dec_nines:
  "foldl (\<lambda>acc c. 10 * acc + digit_value c) acc (replicate n (CHR ''9''))
     = acc * 10 ^ n + (10 ^ n - 1)"
proof (induction n arbitrary: acc)
  case 0
  show ?case by simp
next
  case (Suc n)
  have d9: "digit_value (CHR ''9'') = 9" by (simp add: digit_value_def)
  have "foldl (\<lambda>acc c. 10 * acc + digit_value c) acc (replicate (Suc n) (CHR ''9''))
      = foldl (\<lambda>acc c. 10 * acc + digit_value c) (10 * acc + 9) (replicate n (CHR ''9''))"
    by (simp add: d9)
  also have "\<dots> = (10 * acc + 9) * 10 ^ n + (10 ^ n - 1)"
    by (rule Suc.IH)
  also have "\<dots> = acc * 10 ^ Suc n + (10 ^ Suc n - 1)"
    by (simp add: algebra_simps)
  finally show ?case .
qed

lemma dec_value_nines: "dec_value (replicate n (CHR ''9'')) = 10 ^ n - 1"
  by (simp add: dec_value_def foldl_dec_nines)

lemma nines_out_of_range: "2 ^ 63 \<le> dec_value (replicate 70000 (CHR ''9''))"
proof -
  have "(2::int) ^ 63 < 10 ^ 19" by simp
  also have "(10::int) ^ 19 \<le> 10 ^ 70000" by (rule power_increasing) simp_all
  finally have "(2::int) ^ 63 < 10 ^ 70000" .
  then show ?thesis unfolding dec_value_nines by (simp only: zle_diff1_eq)
qed

lemma progress_examples:
  "parseProgress (''out_time_us=5000000'' @ [CHR 0x0A] @ ''out_time_us=10000000'' @ [CHR 0x0A])
     20000000000 = [Finite 25, Finite 50]"
proof -
  let ?ls = "[''out_time_us=5000000'', ''out_time_us=10000000'']"
  have short: "\<forall>l \<in> set ?ls. CHR 0x0A \<notin> set l \<and> length l < MaxScanTokenSize"
    by (simp add: MaxScanTokenSize_def)
  have 1: "progress_line 20000000000 (dropCR ''out_time_us=5000000'') = [Finite 25]"
    by code_simp
  have 2: "progress_line 20000000000 (dropCR ''out_time_us=10000000'') = [Finite 50]"
    by code_simp
  have e: "parseProgress [] 20000000000 = []"
    by (simp add: parseProgress_def)
  have "parseProgress (concat (map (\<lambda>l. l @ [CHR 0x0A]) ?ls) @ []) 20000000000
      = concat (map (\<lambda>l. progress_line 20000000000 (dropCR l)) ?ls) @ parseProgress [] 20000000000"
    using short by (rule parseProgress_lines)
  then show ?thesis
    by (simp add: 1 2 e)
qed

text \<open>
  Within the limit of the scanner, a line whose first marker does not read as a signed
  64-bit integer leaves no trace: the calls are those of the stream without the line.
\<close>

lemma unparsable_marker_skipped:
  assumes "\<forall>l \<in> set (before @ line # after). CHR 0x0A \<notin> set l \<and> length l < MaxScanTokenSize"
    and "FindStringSubmatch (dropCR line) = Some ds" and "2 ^ 63 \<le> dec_value ds"
  shows "parseProgress (concat (map (\<lambda>l. l @ [CHR 0x0A]) (before @ line # after)) @ rest) total_d
           = parseProgress (concat (map (\<lambda>l. l @ [CHR 0x0A]) (before @ after)) @ rest) total_d"
proof -
  from assms(1) have short: "\<forall>l \<in> set (before @ after). CHR 0x0A \<notin> set l \<and> length l < MaxScanTokenSize"
    by simp
  have skip: "progress_line total_d (dropCR line) = []"
    using assms(2,3) by (rule progress_line_out_of_range(2))
  have L: "parseProgress (concat (map (\<lambda>l. l @ [CHR 0x0A]) (before @ line # after)) @ rest) total_d
      = concat (map (\<lambda>l. progress_line total_d (dropCR l)) (before @ line # after))
        @ parseProgress rest total_d"
    using assms(1) by (rule parseProgress_lines)
  have R: "parseProgress (concat (map (\<lambda>l. l @ [CHR 0x0A]) (before @ after)) @ rest) total_d
      = concat (map (\<lambda>l. progress_line total_d (dropCR l)) (before @ after))
        @ parseProgress rest total_d"
    using short by (rule parseProgress_lines)
  show ?thesis
    unfolding L R by (simp add: skip)
qed

text \<open>
  C10 says that after a line whose marker does not read as a signed 64-bit integer the
  lines that follow are still processed. A marker of 70000 digits does not read as one:
  \<^verbatim>\<open>strconv.ParseInt\<close> reports a range error for it. Its line is longer than the buffer of
  the scanner, so the scanner stops there, and the marker of the next line, which alone
  yields 25, causes no call.
\<close>

theorem long_line_ends_processing:
  "FindStringSubmatch (''out_time_us='' @ replicate 70000 (CHR ''9''))
     = Some (replicate 70000 (CHR ''9'')) \<and>
   ParseInt (replicate 70000 (CHR ''9'')) = Inl ErrRange \<and>
   parseProgress (''out_time_us='' @ replicate 70000 (CHR ''9'') @ [CHR 0x0A]
                  @ ''out_time_us=5000000'' @ [CHR 0x0A]) 20000000000 = [] \<and>
   parseProgress (''out_time_us=5000000'' @ [CHR 0x0A]) 20000000000 = [Finite 25]"
proof -
  let ?nines = "replicate 70000 (CHR ''9'')"
  have ne: "?nines \<noteq> []" by simp
  have dig: "list_all is_digit ?nines" by (simp add: list_all_iff is_digit_def)
  have "FindStringSubmatch (time_prefix @ ?nines @ []) = Some ?nines"
    using ne dig by (rule FindStringSubmatch_at_start) simp
  then have m: "FindStringSubmatch (''out_time_us='' @ ?nines) = Some ?nines"
    by (simp add: time_prefix_def)
  have p: "ParseInt ?nines = Inl ErrRange"
    using nines_out_of_range by (simp add: ParseInt_digits [OF ne dig])
  have "parseProgress ((''out_time_us='' @ ?nines) @ (CHR 0x0A # ''out_time_us=5000000'' @ [CHR 0x0A]))
      20000000000 = []"
    by (rule parseProgress_too_long) (simp_all add: MaxScanTokenSize_def)
  then have long: "parseProgress (''out_time_us='' @ ?nines @ [CHR 0x0A]
                  @ ''out_time_us=5000000'' @ [CHR 0x0A]) 20000000000 = []"
    by simp
  have "parseProgress (concat (map (\<lambda>l. l @ [CHR 0x0A]) [''out_time_us=5000000'']) @ []) 20000000000
      = concat (map (\<lambda>l. progress_line 20000000000 (dropCR l)) [''out_time_us=5000000''])
        @ parseProgress [] 20000000000"
    by (rule parseProgress_lines) (simp add: MaxScanTokenSize_def)
  moreover have "progress_line 20000000000 (dropCR ''out_time_us=5000000'') = [Finite 25]"
    by code_simp
  moreover have "parseProgress [] 20000000000 = []"
    by (simp add: parseProgress_def)
  ultimately have short: "parseProgress (''out_time_us=5000000'' @ [CHR 0x0A]) 20000000000 = [Finite 25]"
    by simp
  from m p long short show ?thesis by (intro conjI)
qed

text \<open>
  C3, as the specification states it, has the callback called for every line with a
  marker. The line \<^verbatim>\<open>out_time_us=9223372036854775808\<close> has a marker, the total of 20
  seconds is positive, and the callback is not called.
\<close>

theorem marker_without_callback:
  "FindStringSubmatch ''out_time_us=9223372036854775808'' = Some ''9223372036854775808'' \<and>
   0 < sint (20000000000 :: Duration) \<and>
   progress_line 20000000000 ''out_time_us=9223372036854775808'' = [] \<and>
   parseProgress (''out_time_us=9223372036854775808'' @ [CHR 0x0A]) 20000000000 = []"
proof -
  have a: "FindStringSubmatch ''out_time_us=9223372036854775808'' = Some ''9223372036854775808'' \<and>
   0 < sint (20000000000 :: Duration) \<and>
   progress_line 20000000000 ''out_time_us=9223372036854775808'' = []"
    by code_simp
  have "parseProgress (concat (map (\<lambda>l. l @ [CHR 0x0A]) [''out_time_us=9223372036854775808'']) @ [])
      20000000000
      = concat (map (\<lambda>l. progress_line 20000000000 (dropCR l)) [''out_time_us=9223372036854775808''])
        @ parseProgress [] 20000000000"
    by (rule parseProgress_lines) (simp add: MaxScanTokenSize_def)
  moreover have "progress_line 20000000000 (dropCR ''out_time_us=9223372036854775808'') = []"
    by code_simp
  moreover have "parseProgress [] 20000000000 = []"
    by (simp add: parseProgress_def)
  ultimately have "parseProgress (''out_time_us=9223372036854775808'' @ [CHR 0x0A]) 20000000000 = []"
    by simp
  with a show ?thesis by simp
qed

text \<open>
  The elapsed time in nanoseconds is the marker times 1000 in 64-bit arithmetic. For
  markers from \<open>2 ^ 63 div 1000\<close> on, below \<open>2 ^ 63\<close>, the product wraps around; here it
  becomes negative, and so does the value the callback receives, since the function
  bounds the percentage from above only.
\<close>

lemma elapsed_time_wraps:
  "FindStringSubmatch ''out_time_us=9223372036854776'' = Some ''9223372036854776'' \<and>
   progress_line 20000000000 ''out_time_us=9223372036854776''
     = [Finite (- (3022314549036573 / 65536))]"
  by code_simp

text \<open>
  C3, amended. For a positive total duration and a line the scanner delivers: a line
  without a marker (no occurrence of \<^verbatim>\<open>out_time_us=\<close> followed by a digit) causes no call;
  otherwise the first marker of the line decides, whatever follows it: exactly one call
  when its digits read as a signed 64-bit integer, and none when they do not. When that
  marker times 1000 stays below \<open>2 ^ 63\<close>, the value passed is the float64 quotient of the
  elapsed time and the total, times 100, replaced by 100 when it is greater; it lies
  between 0 and 100 and is exactly 100 when the elapsed time reaches the total. As long
  as the lines of the stream are shorter than 65536 bytes, the scanner delivers every
  line, without its line feed and one carriage return before it, and the calls happen
  line by line in the order of the lines. The markers 5000000 and 10000000 with a total
  of 20 seconds give exactly 25 and 50.
\<close>

theorem progress_line_percentage:
  assumes "0 < sint total_d"
  shows "(FindStringSubmatch line = None \<longleftrightarrow>
            \<not> (\<exists>pre d rest. line = pre @ ''out_time_us='' @ d # rest \<and> is_digit d)) \<and>
         (FindStringSubmatch line = None \<longrightarrow> progress_line total_d line = []) \<and>
         (\<forall>ds. FindStringSubmatch line = Some ds \<longleftrightarrow>
            (\<exists>pre rest. line = pre @ ''out_time_us='' @ ds @ rest \<and> ds \<noteq> [] \<and>
               list_all is_digit ds \<and> (rest = [] \<or> \<not> is_digit (hd rest)) \<and>
               \<not> (\<exists>p d q. line = p @ ''out_time_us='' @ d # q \<and> is_digit d \<and>
                          length p < length pre))) \<and>
         (\<forall>ds. FindStringSubmatch line = Some ds \<longrightarrow>
            (if dec_value ds < 2 ^ 63 then length (progress_line total_d line) = 1
             else progress_line total_d line = [])) \<and>
         (\<forall>ds. FindStringSubmatch line = Some ds \<and> dec_value ds * 1000 < 2 ^ 63 \<longrightarrow>
            (\<exists>p. progress_line total_d line = [Finite p] \<and>
                 p = min 100 (rnd (rnd (rnd (of_int (dec_value ds * 1000))
                                        / rnd (of_int (sint total_d))) * 100)) \<and>
                 0 \<le> p \<and> p \<le> 100 \<and>
                 (sint total_d \<le> dec_value ds * 1000 \<longrightarrow> p = 100))) \<and>
         (\<forall>ls rest. (\<forall>l \<in> set ls. CHR 0x0A \<notin> set l \<and> length l < 65536) \<longrightarrow>
            parseProgress (concat (map (\<lambda>l. l @ [CHR 0x0A]) ls) @ rest) total_d
              = concat (map (\<lambda>l. progress_line total_d (dropCR l)) ls)
                @ parseProgress rest total_d) \<and>
         (\<forall>l. CHR 0x0A \<notin> set l \<and> length l < 65536 \<longrightarrow>
            parseProgress l total_d = (if l = [] then [] else progress_line total_d (dropCR l))) \<and>
         parseProgress (''out_time_us=5000000'' @ [CHR 0x0A] @ ''out_time_us=10000000'' @ [CHR 0x0A])
           20000000000 = [Finite 25, Finite 50]"
proof -
  have one: "if dec_value ds < 2 ^ 63 then length (progress_line total_d line) = 1
             else progress_line total_d line = []"
    if "FindStringSubmatch line = Some ds" for ds
    using that progress_line_in_range [of line ds total_d]
      progress_line_out_of_range(2) [of line ds total_d]
    by (simp add: not_less)
  have val: "\<exists>p. progress_line total_d line = [Finite p] \<and>
                 p = min 100 (rnd (rnd (rnd (of_int (dec_value ds * 1000))
                                        / rnd (of_int (sint total_d))) * 100)) \<and>
                 0 \<le> p \<and> p \<le> 100 \<and>
                 (sint total_d \<le> dec_value ds * 1000 \<longrightarrow> p = 100)"
    if m: "FindStringSubmatch line = Some ds" and fit: "dec_value ds * 1000 < 2 ^ 63" for ds
  proof -
    let ?c = "of_int (dec_value ds * 1000) :: rat"
    let ?t = "of_int (sint total_d) :: rat"
    let ?x = "rnd (rnd (rnd ?c / rnd ?t) * 100)"
    from FindStringSubmatch_digits [OF m] have "0 \<le> dec_value ds"
      by (simp add: dec_value_nonneg)
    then have c: "0 \<le> ?c" by simp
    from assms have t: "0 < ?t" by (simp only: of_int_0_less_iff)
    note r = percent_in_range [OF c t]
    have "progress_line total_d line = [Finite (min 100 ?x)]"
      using m fit assms by (rule progress_line_value)
    moreover have "0 \<le> min 100 ?x" using r(1) by simp
    moreover have "min 100 ?x \<le> 100" by simp
    moreover have "min 100 ?x = 100" if "sint total_d \<le> dec_value ds * 1000"
    proof -
      from that have "?t \<le> ?c" by (simp only: of_int_le_iff)
      then have "100 \<le> ?x" by (rule r(2))
      then show ?thesis by simp
    qed
    ultimately show ?thesis by blast
  qed
  have lines: "parseProgress (concat (map (\<lambda>l. l @ [CHR 0x0A]) ls) @ rest) total_d
              = concat (map (\<lambda>l. progress_line total_d (dropCR l)) ls)
                @ parseProgress rest total_d"
    if "\<forall>l \<in> set ls. CHR 0x0A \<notin> set l \<and> length l < 65536" for ls rest
    using that by (intro parseProgress_lines) (simp add: MaxScanTokenSize_def)
  have last: "parseProgress l total_d = (if l = [] then [] else progress_line total_d (dropCR l))"
    if "CHR 0x0A \<notin> set l \<and> length l < 65536" for l
    using that by (intro parseProgress_last) (simp_all add: MaxScanTokenSize_def)
  have first: "\<forall>ds. FindStringSubmatch line = Some ds \<longleftrightarrow>
            (\<exists>pre rest. line = pre @ ''out_time_us='' @ ds @ rest \<and> ds \<noteq> [] \<and>
               list_all is_digit ds \<and> (rest = [] \<or> \<not> is_digit (hd rest)) \<and>
               \<not> (\<exists>p d q. line = p @ ''out_time_us='' @ d # q \<and> is_digit d \<and>
                          length p < length pre))"
    by (intro allI FindStringSubmatch_first_marker)
  from one have one': "\<forall>ds. FindStringSubmatch line = Some ds \<longrightarrow>
            (if dec_value ds < 2 ^ 63 then length (progress_line total_d line) = 1
             else progress_line total_d line = [])"
    by blast
  from val have val': "\<forall>ds. FindStringSubmatch line = Some ds \<and> dec_value ds * 1000 < 2 ^ 63 \<longrightarrow>
            (\<exists>p. progress_line total_d line = [Finite p] \<and>
                 p = min 100 (rnd (rnd (rnd (of_int (dec_value ds * 1000))
                                        / rnd (of_int (sint total_d))) * 100)) \<and>
                 0 \<le> p \<and> p \<le> 100 \<and>
                 (sint total_d \<le> dec_value ds * 1000 \<longrightarrow> p = 100))"
    by blast
  from lines have lines': "\<forall>ls rest. (\<forall>l \<in> set ls. CHR 0x0A \<notin> set l \<and> length l < 65536) \<longrightarrow>
            parseProgress (concat (map (\<lambda>l. l @ [CHR 0x0A]) ls) @ rest) total_d
              = concat (map (\<lambda>l. progress_line total_d (dropCR l)) ls)
                @ parseProgress rest total_d"
    by blast
  from last have last': "\<forall>l. CHR 0x0A \<notin> set l \<and> length l < 65536 \<longrightarrow>
            parseProgress l total_d = (if l = [] then [] else progress_line total_d (dropCR l))"
    by blast
  have none: "FindStringSubmatch line = None \<longrightarrow> progress_line total_d line = []"
    by (simp add: progress_line_no_marker)
  show ?thesis
    by (intro conjI FindStringSubmatch_None_iff none first one' val' lines' last' progress_examples)
qed

theorem progress_line_percentage_witness:
  "progress_line 20000000000 ''out_time_us=30000000'' = [Finite 100]"
proof -
  have t: "0 < sint (20000000000 :: Duration)" by simp
  have m: "FindStringSubmatch ''out_time_us=30000000'' = Some ''30000000''" by code_simp
  have f: "dec_value ''30000000'' * 1000 < 2 ^ 63" by code_simp
  have g: "sint (20000000000 :: Duration) \<le> dec_value ''30000000'' * 1000" by code_simp
  from progress_line_percentage [OF t, of "''out_time_us=30000000''"]
  have "\<forall>ds. FindStringSubmatch ''out_time_us=30000000'' = Some ds \<and> dec_value ds * 1000 < 2 ^ 63 \<longrightarrow>
            (\<exists>p. progress_line 20000000000 ''out_time_us=30000000'' = [Finite p] \<and>
                 p = min 100 (rnd (rnd (rnd (of_int (dec_value ds * 1000))
                                        / rnd (of_int (sint (20000000000 :: Duration)))) * 100)) \<and>
                 0 \<le> p \<and> p \<le> 100 \<and>
                 (sint (20000000000 :: Duration) \<le> dec_value ds * 1000 \<longrightarrow> p = 100))"
    by (elim conjE)
  then have "\<exists>p. progress_line 20000000000 ''out_time_us=30000000'' = [Finite p] \<and>
         p = min 100 (rnd (rnd (rnd (of_int (dec_value ''30000000'' * 1000))
                                / rnd (of_int (sint (20000000000 :: Duration)))) * 100)) \<and>
         0 \<le> p \<and> p \<le> 100 \<and>
         (sint (20000000000 :: Duration) \<le> dec_value ''30000000'' * 1000 \<longrightarrow> p = 100)"
    by (rule allE [of _ "''30000000''"]) (erule mp, rule conjI [OF m f])
  then obtain p where pl: "progress_line 20000000000 ''out_time_us=30000000'' = [Finite p]"
    and imp: "sint (20000000000 :: Duration) \<le> dec_value ''30000000'' * 1000 \<longrightarrow> p = 100"
    by (elim exE conjE)
  from imp g have "p = 100" by (rule mp)
  with pl show ?thesis by (simp only:)
qed

section \<open>Properties of Convert\<close>







end
